theory Spec2Isabelle
  imports Main
begin

section \<open>Data model of \<open>lavalink/node.py\<close>\<close>

text \<open>
  Python exceptions raised by the module itself: \<open>get_node\<close> raises \<open>IndexError\<close> with one
  of two messages, \<open>Node.connect\<close> raises \<open>asyncio.TimeoutError\<close>.
\<close>

datatype py_error = IndexError string | TimeoutError

text \<open>
  Outbound frames: the dictionaries built by the player commands of \<open>Node\<close>, keyed by
  \<open>LavalinkOutgoingOp\<close>. The guild id is kept as the integer that \<open>str(guild_id)\<close> prints.
\<close>

datatype frame =
    VOICE_UPDATE int string string
  | DESTROY int
  | PLAY int string
  | STOP int
  | PAUSE int bool
  | SEEK int int
  | VOLUME int int

text \<open>A websocket URI \<open>ws://host:port\<close> is the pair of its host and port.\<close>

type_synonym uri = "string \<times> nat"

text \<open>
  A websocket connection as the module uses it: the \<open>open\<close> property and the frames handed
  to \<open>_ws.send\<close> so far, oldest first (what reached the wire of this connection).
\<close>

record socket =
  peer :: uri
  sock_open :: bool
  sent :: "frame list"

text \<open>
  The attributes of a \<open>Node\<close> object. \<open>ready\<close> is the \<open>asyncio.Event\<close> (set or unset),
  \<open>listener_task\<close> tells whether a listener task has been created, \<open>players\<close> is the set
  \<open>_players\<close>, kept as a list in the order in which \<open>set.pop\<close> hands its elements out.
\<close>

type_synonym player = int

record node =
  host :: string
  port :: nat
  rest :: nat
  password :: string
  is_shutdown :: bool
  ready :: bool
  ws :: "socket option"
  listener_task :: bool
  queue :: "frame list"
  players :: "player list"

text \<open>\<open>Node.__init__\<close>: no socket, no listener, empty queue, no players, event unset.\<close>

definition node_init :: "string \<Rightarrow> string \<Rightarrow> nat \<Rightarrow> nat \<Rightarrow> node" where
  "node_init h pw p r =
     \<lparr>host = h, port = p, rest = r, password = pw, is_shutdown = False, ready = False,
      ws = None, listener_task = False, queue = [], players = []\<rparr>"

text \<open>
  The process-wide state: the \<open>Node\<close> objects, addressed by a number that stands for the
  object's identity, and the module-level dictionary \<open>_nodes\<close>, which maps a node to the
  list of guild ids assigned to it. A Python dictionary keeps its keys in insertion order,
  so the dictionary is an association list in that order.
\<close>

type_synonym node_ref = nat

record world =
  heap :: "node_ref \<Rightarrow> node"
  registry :: "(node_ref \<times> int list) list"

definition put_node :: "world \<Rightarrow> node_ref \<Rightarrow> node \<Rightarrow> world" where
  "put_node w self n = w\<lparr>heap := (heap w)(self := n)\<rparr>"

text \<open>\<open>_nodes[self] = v\<close>: an existing key keeps its place, a new key goes to the end.\<close>

fun dict_set :: "node_ref \<Rightarrow> int list \<Rightarrow> (node_ref \<times> int list) list \<Rightarrow> (node_ref \<times> int list) list" where
  "dict_set k v [] = [(k, v)]"
| "dict_set k v ((k', v') # kvs) = (if k' = k then (k, v) # kvs else (k', v') # dict_set k v kvs)"

text \<open>\<open>_nodes.pop(self, None)\<close>: the key goes away if it is there.\<close>

fun dict_pop :: "node_ref \<Rightarrow> (node_ref \<times> int list) list \<Rightarrow> (node_ref \<times> int list) list" where
  "dict_pop k [] = []"
| "dict_pop k ((k', v') # kvs) = (if k' = k then dict_pop k kvs else (k', v') # dict_pop k kvs)"

text \<open>\<open>_nodes[k].append(g)\<close>.\<close>

fun dict_append :: "node_ref \<Rightarrow> int \<Rightarrow> (node_ref \<times> int list) list \<Rightarrow> (node_ref \<times> int list) list" where
  "dict_append k g [] = []"
| "dict_append k g ((k', v') # kvs) =
     (if k' = k then (k', v' @ [g]) # kvs else (k', v') # dict_append k g kvs)"

section \<open>\<open>Node.send\<close>\<close>

text \<open>\<open>self._ws is not None and self._ws.open\<close>.\<close>

definition ws_open :: "node \<Rightarrow> bool" where
  "ws_open self = (case ws self of None \<Rightarrow> False | Some s \<Rightarrow> sock_open s)"

text \<open>
  \<open>send\<close>: with no open socket the frame is appended to \<open>_queue\<close>, otherwise it is written
  to the socket.
\<close>

definition send :: "node \<Rightarrow> frame \<Rightarrow> node" where
  "send self data =
     (case ws self of
        None \<Rightarrow> self\<lparr>queue := queue self @ [data]\<rparr>
      | Some s \<Rightarrow>
          if \<not> sock_open s then self\<lparr>queue := queue self @ [data]\<rparr>
          else self\<lparr>ws := Some (s\<lparr>sent := sent s @ [data]\<rparr>)\<rparr>)"

text \<open>\<open>destroy_guild\<close>, the one player command the shutdown path is specified with.\<close>

definition destroy_guild :: "node \<Rightarrow> int \<Rightarrow> node" where
  "destroy_guild self guild_id = send self (DESTROY guild_id)"

section \<open>\<open>get_node\<close>\<close>

text \<open>
  The \<open>for\<close> loop of \<open>get_node\<close> over \<open>_nodes.items()\<close>, with the two local variables
  \<open>guild_count\<close> and \<open>least_used\<close>. \<open>Inl node\<close> is the \<open>return node\<close> inside the loop,
  \<open>Inr\<close> carries the locals when the loop runs to its end.
\<close>

fun get_node_loop ::
  "(node_ref \<Rightarrow> node) \<Rightarrow> int \<Rightarrow> (node_ref \<times> int list) list \<Rightarrow> nat \<Rightarrow> node_ref option
     \<Rightarrow> node_ref + (nat \<times> node_ref option)" where
  "get_node_loop h guild_id [] guild_count least_used = Inr (guild_count, least_used)"
| "get_node_loop h guild_id ((nd, guild_ids) # items) guild_count least_used =
     (if \<not> ready (h nd) then get_node_loop h guild_id items guild_count least_used
      else
        let (guild_count', least_used') =
              (if length guild_ids < guild_count then (length guild_ids, Some nd)
               else (guild_count, least_used))
        in if guild_id \<in> set guild_ids then Inl nd
           else get_node_loop h guild_id items guild_count' least_used')"

text \<open>
  \<open>get_node\<close>. \<open>guild_count\<close> starts at \<open>1e10\<close>. The world is returned with the result:
  only the final \<open>append\<close> changes it.
\<close>

definition get_node :: "world \<Rightarrow> int \<Rightarrow> (py_error + node_ref) \<times> world" where
  "get_node w guild_id =
     (if registry w = [] then (Inl (IndexError ''no Nodes have been instantiated''), w)
      else
        case get_node_loop (heap w) guild_id (registry w) 10000000000 None of
          Inl nd \<Rightarrow> (Inr nd, w)
        | Inr (guild_count, None) \<Rightarrow> (Inl (IndexError ''No nodes found.''), w)
        | Inr (guild_count, Some least_used) \<Rightarrow>
            (Inr least_used, w\<lparr>registry := dict_append least_used guild_id (registry w)\<rparr>))"

section \<open>\<open>Node._multi_try_connect\<close>\<close>

text \<open>
  What one call of \<open>websockets.connect\<close> does: it returns an open connection, raises
  \<open>OSError\<close>, raises \<open>InvalidStatusCode\<close>, or raises something else.
\<close>

datatype conn_result = Opened | OSError | InvalidStatusCode | OtherError

text \<open>
  What other tasks do to the node while \<open>connect\<close> is suspended at an \<open>await\<close>: nothing;
  the peer closes the connection that \<open>self._ws\<close> holds; or a connection attempt that is
  still running (the tasks of the race are never cancelled) gets its connection and writes
  it into \<open>self._ws\<close> (line 232), replacing the one that was there.
\<close>

datatype event = Quiet | PeerCloses | LateConnect

text \<open>
  The network and the clock, as far as \<open>connect\<close> sees them: for each URI and attempt
  number the result of \<open>websockets.connect\<close>, the time that call takes, and the delay that
  \<open>ExponentialBackoff.delay\<close> (discord.py, not part of this module) hands out for the retry
  after it; and for each suspension of \<open>connect\<close> after the race what happens to the node
  meanwhile. Suspension 0 is the one between the winning task's return and the moment
  \<open>connect\<close> goes on, suspension \<open>i + 1\<close> the \<open>await\<close> of the write of the frame at index
  \<open>i\<close> of the queue. The environment is free to let a late connection arrive at any
  suspension, which is more than two tasks can do. Time is counted in ticks.
\<close>

record env =
  outcome :: "uri \<Rightarrow> nat \<Rightarrow> conn_result"
  took :: "uri \<Rightarrow> nat \<Rightarrow> nat"
  delay :: "uri \<Rightarrow> nat \<Rightarrow> nat"
  interference :: "nat \<Rightarrow> event"

text \<open>How a task ends: it returns a connection or \<open>None\<close>, or an exception leaves it.\<close>

datatype task_end = Returned "socket option" | Raised

text \<open>
  \<open>_multi_try_connect\<close>, run from the node as the task finds it, with the local \<open>attempt\<close>
  and the clock. The result is the time at which the task ends, the value of \<open>attempt\<close>
  then, and how it ends; \<open>None\<close> is a task that never ends. The task writes \<open>self._ws\<close>
  only when it returns a connection; that connection is in the result.
\<close>

partial_function (option) multi_try_connect ::
  "env \<Rightarrow> uri \<Rightarrow> node \<Rightarrow> nat \<Rightarrow> nat \<Rightarrow> (nat \<times> nat \<times> task_end) option" where
  "multi_try_connect E u self attempt now =
     (if is_shutdown self = False \<and> \<not> ws_open self then
        (case outcome E u attempt of
           Opened \<Rightarrow>
             Some (now + took E u attempt, attempt,
                   Returned (Some \<lparr>peer = u, sock_open = True, sent = []\<rparr>))
         | OSError \<Rightarrow>
             multi_try_connect E u self (attempt + 1) (now + took E u attempt + delay E u attempt)
         | InvalidStatusCode \<Rightarrow> Some (now + took E u attempt, attempt, Returned None)
         | OtherError \<Rightarrow> Some (now + took E u attempt, attempt, Raised))
      else Some (now, attempt, Returned None))"

section \<open>\<open>Node.connect\<close>\<close>

text \<open>
  \<open>asyncio.as_completed(tasks, timeout=timeout)\<close>: awaiting its items gives the results of
  the tasks in the order in which they end; once the timeout has passed every further item
  raises \<open>TimeoutError\<close>; with no timeout an item for a task that never ends never resumes.
\<close>

fun in_time :: "nat option \<Rightarrow> nat \<Rightarrow> bool" where
  "in_time None t = True"
| "in_time (Some d) t = (t < d)"

datatype yield = Result task_end | TimedOut | Blocked

fun ended_in_time :: "nat option \<Rightarrow> (nat \<times> nat \<times> task_end) option list \<Rightarrow> (nat \<times> nat \<times> task_end) list" where
  "ended_in_time timeout [] = []"
| "ended_in_time timeout (None # tasks) = ended_in_time timeout tasks"
| "ended_in_time timeout (Some r # tasks) =
     (if in_time timeout (fst r) then r # ended_in_time timeout tasks
      else ended_in_time timeout tasks)"

definition as_completed :: "nat option \<Rightarrow> (nat \<times> nat \<times> task_end) option list \<Rightarrow> yield list" where
  "as_completed timeout tasks =
     (let done = sort_key fst (ended_in_time timeout tasks)
      in map (\<lambda>r. Result (snd (snd r))) done
         @ replicate (length tasks - length done) (if timeout = None then Blocked else TimedOut))"

text \<open>
  The \<open>for \<dots> else\<close> of \<open>connect\<close>: a connection leaves the loop by \<open>break\<close>; \<open>None\<close> and
  every exception (held back by \<open>contextlib.suppress(Exception)\<close>) go on to the next item;
  the loop running out is the \<open>else\<close> branch.
\<close>

datatype race = Break socket | Else | Hang

fun race_loop :: "yield list \<Rightarrow> race" where
  "race_loop [] = Else"
| "race_loop (Result (Returned (Some s)) # ys) = Break s"
| "race_loop (Result (Returned None) # ys) = race_loop ys"
| "race_loop (Result Raised # ys) = race_loop ys"
| "race_loop (TimedOut # ys) = race_loop ys"
| "race_loop (Blocked # ys) = Hang"

text \<open>
  The effect of an event on the node; \<open>other\<close> is the URI of the task that did not win.
\<close>

fun apply_event :: "uri \<Rightarrow> event \<Rightarrow> node \<Rightarrow> node" where
  "apply_event other Quiet self = self"
| "apply_event other PeerCloses self =
     self\<lparr>ws := map_option (\<lambda>s. s\<lparr>sock_open := False\<rparr>) (ws self)\<rparr>"
| "apply_event other LateConnect self =
     self\<lparr>ws := Some \<lparr>peer = other, sock_open = True, sent = []\<rparr>\<rparr>"

text \<open>
  \<open>for data in self._queue: await self.send(data)\<close>. The loop walks the list itself, not a
  copy, so it is a loop over an index into the queue as it is at each step. \<open>send\<close>
  suspends only when it writes to a connection; when it appends to the queue the loop goes
  on at once, and nothing else runs in between. The result lists the node at the head of
  every round and after every \<open>send\<close>, the last entry being the node after the loop, and
  the frames that were written to a connection, in order. \<open>None\<close> is a loop that never
  ends: once the connection is closed every round appends the frame it reads.
\<close>

partial_function (option) flush_queue ::
  "env \<Rightarrow> uri \<Rightarrow> nat \<Rightarrow> node \<Rightarrow> (node list \<times> frame list) option" where
  "flush_queue E other i self =
     (if i < length (queue self) then
        (let data = queue self ! i;
             written = send self data;
             resumed = (if ws_open self then apply_event other (interference E (Suc i)) written
                        else written)
         in Option.bind (flush_queue E other (Suc i) resumed)
              (\<lambda>r. Some (self # written # fst r, (if ws_open self then [data] else []) @ snd r)))
      else Some ([self], []))"

text \<open>
  A run of \<open>connect\<close> that returns: the exception that left it, if any; the worlds that
  other tasks could see while it ran, in order, the last one being the world on return;
  and the frames that its loop over the queue wrote to a connection, in order.
\<close>

record conn_run =
  raised :: "py_error option"
  observed :: "world list"
  flushed :: "frame list"

text \<open>
  \<open>connect\<close>. \<open>None\<close> is a call that never returns. The two tasks run from the node as
  \<open>connect\<close> leaves it after its first statement; until one of them returns a connection
  neither writes to the node, so each is run on its own up to there. The task that ends
  first with a connection has written it into \<open>self._ws\<close>; what the other task and the
  peer do from then on is given by the events of the environment. Calls that the
  application or the listener make on the node while \<open>connect\<close> is suspended are not part
  of a run.
\<close>

definition connect :: "env \<Rightarrow> nat option \<Rightarrow> world \<Rightarrow> node_ref \<Rightarrow> conn_run option" where
  "connect E timeout w self =
     (let n0 = (heap w self)\<lparr>is_shutdown := False\<rparr>;
          w0 = put_node w self n0;
          combo_uri = (host n0, rest n0);
          uri = (host n0, port n0);
          tasks = [multi_try_connect E combo_uri n0 1 0, multi_try_connect E uri n0 1 0]
      in case race_loop (as_completed timeout tasks) of
           Hang \<Rightarrow> None
         | Else \<Rightarrow> Some \<lparr>raised = Some TimeoutError, observed = [w0], flushed = []\<rparr>
         | Break s \<Rightarrow>
             (let other = (if peer s = combo_uri then uri else combo_uri);
                  won = n0\<lparr>ws := Some s\<rparr>;
                  n1 = apply_event other (interference E 0) won;
                  w1 = w0\<lparr>registry := dict_set self [] (registry w0)\<rparr>;
                  n2 = n1\<lparr>listener_task := True\<rparr>
              in case flush_queue E other 0 n2 of
                   None \<Rightarrow> None
                 | Some (ns, fs) \<Rightarrow>
                     Some \<lparr>raised = None,
                           observed = w0 # put_node w0 self won # map (put_node w1 self) ns
                                      @ [put_node w1 self ((last ns)\<lparr>ready := True\<rparr>)],
                           flushed = fs\<rparr>))"

section \<open>\<open>Node.listener\<close>, \<open>Node._reconnect\<close>, \<open>Node.disconnect\<close>\<close>

text \<open>The peer closes the connection: \<open>_ws.open\<close> turns false.\<close>

definition peer_close :: "world \<Rightarrow> node_ref \<Rightarrow> world" where
  "peer_close w self =
     put_node w self ((heap w self)\<lparr>ws := map_option (\<lambda>s. s\<lparr>sock_open := False\<rparr>) (ws (heap w self))\<rparr>)"

text \<open>\<open>send\<close> on the node at an address.\<close>

definition node_send :: "world \<Rightarrow> node_ref \<Rightarrow> frame \<Rightarrow> world" where
  "node_send w self data = put_node w self (send (heap w self) data)"

text \<open>
  \<open>_reconnect\<close>: clears the event, stops there after a shutdown, otherwise calls
  \<open>connect()\<close> with no timeout and swallows its \<open>TimeoutError\<close>.
\<close>

definition reconnect :: "env \<Rightarrow> world \<Rightarrow> node_ref \<Rightarrow> world option" where
  "reconnect E w self =
     (let w1 = put_node w self ((heap w self)\<lparr>ready := False\<rparr>)
      in if is_shutdown (heap w1 self) = True then Some w1
         else case connect E None w1 self of
                None \<Rightarrow> None
              | Some r \<Rightarrow> Some (last (observed r)))"

text \<open>
  The statements of \<open>listener\<close> after its \<open>while\<close> loop, which the task reaches when the
  connection is closed or a shutdown is under way: it clears the event and starts
  \<open>_reconnect\<close>.
\<close>

definition listener_exit :: "env \<Rightarrow> world \<Rightarrow> node_ref \<Rightarrow> world option" where
  "listener_exit E w self = reconnect E (put_node w self ((heap w self)\<lparr>ready := False\<rparr>)) self"

text \<open>
  \<open>while self._players: await self._players.pop().destroy()\<close>. \<open>Player.destroy\<close> is not
  part of this module; it is the parameter \<open>destroy\<close>, the frames that the player hands to
  \<open>send\<close> of its node while it is torn down.
\<close>

fun destroy_players :: "(player \<Rightarrow> frame list) \<Rightarrow> player list \<Rightarrow> node \<Rightarrow> node" where
  "destroy_players destroy [] self = self"
| "destroy_players destroy (p # ps) self =
     destroy_players destroy ps (foldl send (self\<lparr>players := ps\<rparr>) (destroy p))"

definition disconnect :: "(player \<Rightarrow> frame list) \<Rightarrow> world \<Rightarrow> node_ref \<Rightarrow> world" where
  "disconnect destroy w self =
     (let n0 = (heap w self)\<lparr>is_shutdown := True, ready := False\<rparr>;
          n1 = (if ws_open n0 then n0\<lparr>ws := map_option (\<lambda>s. s\<lparr>sock_open := False\<rparr>) (ws n0)\<rparr> else n0);
          n2 = destroy_players destroy (players n1) n1
      in (put_node w self n2)\<lparr>registry := dict_pop self (registry w)\<rparr>)"

section \<open>Notions used in the statements\<close>


text \<open>
  The nodes before and after each \<open>send\<close> of a list of frames sent one after the other
  with nothing happening in between.
\<close>

fun sends :: "node \<Rightarrow> frame list \<Rightarrow> node list" where
  "sends self [] = [self]"
| "sends self (f # fs) = self # send self f # sends (send self f) fs"

text \<open>
  The URI of the task that lost to a connection, and the node with which the loop over the
  queue starts after that connection has won.
\<close>

definition loser_uri :: "node \<Rightarrow> socket \<Rightarrow> uri" where
  "loser_uri n s = (if peer s = (host n, rest n) then (host n, port n) else (host n, rest n))"

definition flush_start :: "env \<Rightarrow> node \<Rightarrow> socket \<Rightarrow> node" where
  "flush_start E n s =
     (apply_event (loser_uri n s) (interference E 0) (n\<lparr>is_shutdown := False, ws := Some s\<rparr>))
       \<lparr>listener_task := True\<rparr>"

text \<open>An environment in which nothing happens during the suspensions of \<open>connect\<close>.\<close>

definition quiet :: "env \<Rightarrow> bool" where
  "quiet E = (\<forall>k. interference E k = Quiet)"

text \<open>A task that returns a connection before the timeout.\<close>

fun wins :: "nat option \<Rightarrow> (nat \<times> nat \<times> task_end) option \<Rightarrow> bool" where
  "wins timeout (Some (t, a, Returned (Some s))) = in_time timeout t"
| "wins timeout (Some (t, a, Returned None)) = False"
| "wins timeout (Some (t, a, Raised)) = False"
| "wins timeout None = False"

text \<open>The two tasks that \<open>connect\<close> starts for a node.\<close>

definition connect_tasks :: "env \<Rightarrow> node \<Rightarrow> (nat \<times> nat \<times> task_end) option list" where
  "connect_tasks E n =
     [multi_try_connect E (host n, rest n) (n\<lparr>is_shutdown := False\<rparr>) 1 0,
      multi_try_connect E (host n, port n) (n\<lparr>is_shutdown := False\<rparr>) 1 0]"

text \<open>Concrete worlds and networks for the examples.\<close>

definition mk_world :: "node list \<Rightarrow> (node_ref \<times> int list) list \<Rightarrow> world" where
  "mk_world ns items =
     \<lparr>heap = (\<lambda>i. if i < length ns then ns ! i else node_init [] [] 0 0), registry = items\<rparr>"

definition up :: "node \<Rightarrow> node" where
  "up n = n\<lparr>ready := True\<rparr>"

text \<open>
  A network given by a script of results per port; a port with no script, or one whose
  script has run out, answers \<open>OSError\<close>. Every call takes one tick, the delay doubles,
  and nothing happens while \<open>connect\<close> is suspended.
\<close>

definition net :: "(nat \<times> conn_result list) list \<Rightarrow> env" where
  "net scripts =
     \<lparr>outcome = (\<lambda>u k. case map_of scripts (snd u) of
                          None \<Rightarrow> OSError
                        | Some xs \<Rightarrow> if 0 < k \<and> k \<le> length xs then xs ! (k - 1) else OSError),
      took = (\<lambda>u k. 1),
      delay = (\<lambda>u k. 2 ^ k),
      interference = (\<lambda>k. Quiet)\<rparr>"

text \<open>The frames written to the connection that a node holds.\<close>

definition wire :: "node_ref \<Rightarrow> world \<Rightarrow> frame list" where
  "wire self w = (case ws (heap w self) of None \<Rightarrow> [] | Some s \<Rightarrow> sent s)"

text \<open>The world in which a run of \<open>connect\<close> returns, and a node of a world.\<close>

definition world_after :: "conn_run option \<Rightarrow> world option" where
  "world_after = map_option (\<lambda>r. last (observed r))"

definition node_at :: "node_ref \<Rightarrow> world option \<Rightarrow> node option" where
  "node_at self = map_option (\<lambda>w. heap w self)"


text \<open>A \<open>Player.destroy\<close> that sends the destroy command of its guild.\<close>

definition destroy_cmd :: "player \<Rightarrow> frame list" where
  "destroy_cmd p = [DESTROY p]"

text \<open>
  Two connections in a row: a frame is sent while the node has no connection, \<open>connect\<close>
  succeeds, the peer closes the connection, a second frame is sent, and the listener's
  exit reconnects. The result is what was written to the first and to the second
  connection.
\<close>

definition resend_scenario ::
  "env \<Rightarrow> world \<Rightarrow> node_ref \<Rightarrow> frame \<Rightarrow> frame \<Rightarrow> (frame list \<times> frame list) option" where
  "resend_scenario E w self f1 f2 =
     (case connect E None (node_send w self f1) self of
        None \<Rightarrow> None
      | Some r \<Rightarrow>
          (case listener_exit E (node_send (peer_close (last (observed r)) self) self f2) self of
             None \<Rightarrow> None
           | Some w' \<Rightarrow> Some (wire self (last (observed r)), wire self w')))"

section \<open>The registry: \<open>get_node\<close>\<close>

subsection \<open>The loop of \<open>get_node\<close>\<close>

lemma loop_none_ready:
  "\<forall>(nd, gs) \<in> set items. \<not> ready (h nd) \<Longrightarrow> get_node_loop h g items gc lu = Inr (gc, lu)"
  by (induction items) auto

lemma loop_Inl:
  "get_node_loop h g items gc lu = Inl nd \<Longrightarrow>
     \<exists>pre gs post. items = pre @ (nd, gs) # post \<and> ready (h nd) \<and> g \<in> set gs \<and>
        (\<forall>(m, hs) \<in> set pre. ready (h m) \<longrightarrow> g \<notin> set hs)"
proof (induction items arbitrary: gc lu)
  case Nil
  then show ?case by simp
next
  case (Cons a items)
  obtain n0 gs0 where a: "a = (n0, gs0)" by (cases a)
  show ?case
  proof (cases "ready (h n0) \<and> g \<in> set gs0")
    case True
    with Cons.prems a have "nd = n0" by (simp split: if_splits prod.splits)
    with True a have "a # items = [] @ (nd, gs0) # items \<and> ready (h nd) \<and> g \<in> set gs0" by simp
    then show ?thesis by fastforce
  next
    case False
    with Cons.prems a obtain gc' lu' where "get_node_loop h g items gc' lu' = Inl nd"
      by (auto split: if_splits prod.splits)
    from Cons.IH[OF this] obtain pre gs post where
      p: "items = pre @ (nd, gs) # post" "ready (h nd)" "g \<in> set gs"
         "\<forall>(m, hs) \<in> set pre. ready (h m) \<longrightarrow> g \<notin> set hs" by blast
    from p False a have "a # items = (a # pre) @ (nd, gs) # post \<and> ready (h nd) \<and> g \<in> set gs \<and>
        (\<forall>(m, hs) \<in> set (a # pre). ready (h m) \<longrightarrow> g \<notin> set hs)" by auto
    then show ?thesis by blast
  qed
qed

lemma loop_sticky:
  "\<exists>(nd, gs) \<in> set items. ready (h nd) \<and> g \<in> set gs \<Longrightarrow>
     \<exists>nd. get_node_loop h g items gc lu = Inl nd"
  by (induction items arbitrary: gc lu) (auto split: prod.splits)

text \<open>
  With the guild id in no list of a ready node the loop runs to its end. Either no ready
  node has fewer guilds than the starting count, and the locals are as they were; or
  \<open>least_used\<close> is a ready node with the fewest guilds, every ready node before it in the
  dictionary having strictly more.
\<close>

lemma loop_min:
  assumes "\<forall>(nd, gs) \<in> set items. ready (h nd) \<longrightarrow> g \<notin> set gs"
  shows "\<exists>gc' lu'. get_node_loop h g items gc lu = Inr (gc', lu') \<and>
     ((gc' = gc \<and> lu' = lu \<and> (\<forall>(nd, gs) \<in> set items. ready (h nd) \<longrightarrow> gc \<le> length gs)) \<or>
      (\<exists>pre nd gs post. items = pre @ (nd, gs) # post \<and> ready (h nd) \<and> length gs = gc' \<and>
          gc' < gc \<and> lu' = Some nd \<and>
          (\<forall>(m, hs) \<in> set pre. ready (h m) \<longrightarrow> length gs < length hs) \<and>
          (\<forall>(m, hs) \<in> set post. ready (h m) \<longrightarrow> length gs \<le> length hs)))"
  using assms
proof (induction items arbitrary: gc lu)
  case Nil
  then show ?case by simp
next
  case (Cons a items)
  obtain n0 gs0 where a: "a = (n0, gs0)" by (cases a)
  from Cons.prems have fresh: "\<forall>(nd, gs) \<in> set items. ready (h nd) \<longrightarrow> g \<notin> set gs" by simp
  show ?case
  proof (cases "ready (h n0)")
    case False
    from Cons.IH[OF fresh, of gc lu] obtain gc' lu' where
      r: "get_node_loop h g items gc lu = Inr (gc', lu')" and
      d: "(gc' = gc \<and> lu' = lu \<and> (\<forall>(nd, gs) \<in> set items. ready (h nd) \<longrightarrow> gc \<le> length gs)) \<or>
      (\<exists>pre nd gs post. items = pre @ (nd, gs) # post \<and> ready (h nd) \<and> length gs = gc' \<and>
          gc' < gc \<and> lu' = Some nd \<and>
          (\<forall>(m, hs) \<in> set pre. ready (h m) \<longrightarrow> length gs < length hs) \<and>
          (\<forall>(m, hs) \<in> set post. ready (h m) \<longrightarrow> length gs \<le> length hs))" by blast
    from r a False have r': "get_node_loop h g (a # items) gc lu = Inr (gc', lu')" by simp
    from d show ?thesis
    proof
      assume "gc' = gc \<and> lu' = lu \<and> (\<forall>(nd, gs) \<in> set items. ready (h nd) \<longrightarrow> gc \<le> length gs)"
      with r' a False show ?thesis by auto
    next
      assume "\<exists>pre nd gs post. items = pre @ (nd, gs) # post \<and> ready (h nd) \<and> length gs = gc' \<and>
          gc' < gc \<and> lu' = Some nd \<and>
          (\<forall>(m, hs) \<in> set pre. ready (h m) \<longrightarrow> length gs < length hs) \<and>
          (\<forall>(m, hs) \<in> set post. ready (h m) \<longrightarrow> length gs \<le> length hs)"
      then obtain pre nd gs post where p: "items = pre @ (nd, gs) # post" "ready (h nd)"
          "length gs = gc'" "gc' < gc" "lu' = Some nd"
          "\<forall>(m, hs) \<in> set pre. ready (h m) \<longrightarrow> length gs < length hs"
          "\<forall>(m, hs) \<in> set post. ready (h m) \<longrightarrow> length gs \<le> length hs" by blast
      from p a False have "a # items = (a # pre) @ (nd, gs) # post \<and> ready (h nd) \<and> length gs = gc' \<and>
          gc' < gc \<and> lu' = Some nd \<and>
          (\<forall>(m, hs) \<in> set (a # pre). ready (h m) \<longrightarrow> length gs < length hs) \<and>
          (\<forall>(m, hs) \<in> set post. ready (h m) \<longrightarrow> length gs \<le> length hs)" by simp
      with r' show ?thesis by blast
    qed
  next
    case True
    with Cons.prems a have notin: "g \<notin> set gs0" by simp
    define gc0 where "gc0 = (if length gs0 < gc then length gs0 else gc)"
    define lu0 where "lu0 = (if length gs0 < gc then Some n0 else lu)"
    from Cons.IH[OF fresh, of gc0 lu0] obtain gc' lu' where
      r: "get_node_loop h g items gc0 lu0 = Inr (gc', lu')" and
      d: "(gc' = gc0 \<and> lu' = lu0 \<and> (\<forall>(nd, gs) \<in> set items. ready (h nd) \<longrightarrow> gc0 \<le> length gs)) \<or>
      (\<exists>pre nd gs post. items = pre @ (nd, gs) # post \<and> ready (h nd) \<and> length gs = gc' \<and>
          gc' < gc0 \<and> lu' = Some nd \<and>
          (\<forall>(m, hs) \<in> set pre. ready (h m) \<longrightarrow> length gs < length hs) \<and>
          (\<forall>(m, hs) \<in> set post. ready (h m) \<longrightarrow> length gs \<le> length hs))" by blast
    from r a True notin have r': "get_node_loop h g (a # items) gc lu = Inr (gc', lu')"
      by (cases "length gs0 < gc") (simp_all add: gc0_def lu0_def)
    from d show ?thesis
    proof
      assume e: "gc' = gc0 \<and> lu' = lu0 \<and> (\<forall>(nd, gs) \<in> set items. ready (h nd) \<longrightarrow> gc0 \<le> length gs)"
      show ?thesis
      proof (cases "length gs0 < gc")
        case lt: True
        with e a True have "a # items = [] @ (n0, gs0) # items \<and> ready (h n0) \<and> length gs0 = gc' \<and>
          gc' < gc \<and> lu' = Some n0 \<and>
          (\<forall>(m, hs) \<in> set []. ready (h m) \<longrightarrow> length gs0 < length hs) \<and>
          (\<forall>(m, hs) \<in> set items. ready (h m) \<longrightarrow> length gs0 \<le> length hs)"
          by (simp add: gc0_def lu0_def)
        with r' show ?thesis by blast
      next
        case ge: False
        with e a have "gc' = gc \<and> lu' = lu \<and> (\<forall>(nd, gs) \<in> set (a # items). ready (h nd) \<longrightarrow> gc \<le> length gs)"
          by (simp add: gc0_def lu0_def)
        with r' show ?thesis by blast
      qed
    next
      assume "\<exists>pre nd gs post. items = pre @ (nd, gs) # post \<and> ready (h nd) \<and> length gs = gc' \<and>
          gc' < gc0 \<and> lu' = Some nd \<and>
          (\<forall>(m, hs) \<in> set pre. ready (h m) \<longrightarrow> length gs < length hs) \<and>
          (\<forall>(m, hs) \<in> set post. ready (h m) \<longrightarrow> length gs \<le> length hs)"
      then obtain pre nd gs post where p: "items = pre @ (nd, gs) # post" "ready (h nd)"
          "length gs = gc'" "gc' < gc0" "lu' = Some nd"
          "\<forall>(m, hs) \<in> set pre. ready (h m) \<longrightarrow> length gs < length hs"
          "\<forall>(m, hs) \<in> set post. ready (h m) \<longrightarrow> length gs \<le> length hs" by blast
      from p(4) have "gc' < gc" "gc' < length gs0 \<or> \<not> length gs0 < gc"
        by (auto simp: gc0_def split: if_splits)
      with p a have "a # items = (a # pre) @ (nd, gs) # post \<and> ready (h nd) \<and> length gs = gc' \<and>
          gc' < gc \<and> lu' = Some nd \<and>
          (\<forall>(m, hs) \<in> set (a # pre). ready (h m) \<longrightarrow> length gs < length hs) \<and>
          (\<forall>(m, hs) \<in> set post. ready (h m) \<longrightarrow> length gs \<le> length hs)" by auto
      with r' show ?thesis by blast
    qed
  qed
qed

lemma dict_append_split:
  "distinct (map fst (pre @ (nd, gs) # post)) \<Longrightarrow>
     dict_append nd g (pre @ (nd, gs) # post) = pre @ (nd, gs @ [g]) # post"
  by (induction pre) auto





text \<open>
  Claim C4. On an empty registry \<open>get_node\<close> raises \<open>IndexError\<close> with the message
  "no Nodes have been instantiated"; on a registry with entries of which none is ready it
  raises \<open>IndexError\<close> with the message "No nodes found."; the two errors differ (by their
  message, the exception class being the same), and the registry is left as it was.
\<close>

theorem get_node_empty_or_unready:
  "get_node (w\<lparr>registry := []\<rparr>) g
     = (Inl (IndexError ''no Nodes have been instantiated''), w\<lparr>registry := []\<rparr>)
   \<and> (registry w \<noteq> [] \<and> (\<forall>(nd, gs) \<in> set (registry w). \<not> ready (heap w nd))
        \<longrightarrow> get_node w g = (Inl (IndexError ''No nodes found.''), w))
   \<and> IndexError ''no Nodes have been instantiated'' \<noteq> IndexError ''No nodes found.''"
  by (simp add: get_node_def loop_none_ready)

theorem get_node_empty_or_unready_witness:
  "get_node (mk_world [node_init ''a'' ''pw'' 1 2, node_init ''b'' ''pw'' 1 2] [(0, []), (1, [3])]) 5
     = (Inl (IndexError ''No nodes found.''),
        mk_world [node_init ''a'' ''pw'' 1 2, node_init ''b'' ''pw'' 1 2] [(0, []), (1, [3])])
   \<and> get_node (mk_world [node_init ''a'' ''pw'' 1 2, node_init ''b'' ''pw'' 1 2] []) 5
     = (Inl (IndexError ''no Nodes have been instantiated''),
        mk_world [node_init ''a'' ''pw'' 1 2, node_init ''b'' ''pw'' 1 2] [])"
proof -
  let ?w = "mk_world [node_init ''a'' ''pw'' 1 2, node_init ''b'' ''pw'' 1 2] [(0, []), (1, [3])]"
  have h: "registry ?w \<noteq> [] \<and> (\<forall>(nd, gs) \<in> set (registry ?w). \<not> ready (heap ?w nd))"
    by (simp add: mk_world_def node_init_def)
  have e: "?w\<lparr>registry := []\<rparr> = mk_world [node_init ''a'' ''pw'' 1 2, node_init ''b'' ''pw'' 1 2] []"
    by (simp add: mk_world_def)
  from get_node_empty_or_unready [of ?w 5] h e show ?thesis by simp
qed

text \<open>
  Claim C10. When the guild id is in the list of a ready node, \<open>get_node\<close> returns such a
  node, the first one in registry order, and the world it leaves is the world it found: no
  assignment list changes.
\<close>

theorem get_node_lookup_frame:
  assumes "\<exists>(nd, gs) \<in> set (registry w). ready (heap w nd) \<and> g \<in> set gs"
  shows "\<exists>pre nd gs post. get_node w g = (Inr nd, w) \<and> registry w = pre @ (nd, gs) # post
           \<and> ready (heap w nd) \<and> g \<in> set gs
           \<and> (\<forall>(m, hs) \<in> set pre. ready (heap w m) \<longrightarrow> g \<notin> set hs)"
proof -
  from assms have ne: "registry w \<noteq> []" by auto
  from loop_sticky[OF assms] obtain nd where
    l: "get_node_loop (heap w) g (registry w) 10000000000 None = Inl nd" by blast
  from loop_Inl[OF l] obtain pre gs post where
    "registry w = pre @ (nd, gs) # post" "ready (heap w nd)" "g \<in> set gs"
    "\<forall>(m, hs) \<in> set pre. ready (heap w m) \<longrightarrow> g \<notin> set hs" by blast
  moreover from l ne have "get_node w g = (Inr nd, w)" by (simp add: get_node_def)
  ultimately show ?thesis by blast
qed

theorem get_node_lookup_frame_witness:
  "get_node (mk_world [up (node_init ''a'' ''pw'' 1 2), up (node_init ''b'' ''pw'' 1 2)] [(0, [4]), (1, [7, 8])]) 7
     = (Inr 1, mk_world [up (node_init ''a'' ''pw'' 1 2), up (node_init ''b'' ''pw'' 1 2)] [(0, [4]), (1, [7, 8])])"
proof -
  let ?w = "mk_world [up (node_init ''a'' ''pw'' 1 2), up (node_init ''b'' ''pw'' 1 2)] [(0, [4]), (1, [7, 8])]"
  have h: "\<exists>(nd, gs) \<in> set (registry ?w). ready (heap ?w nd) \<and> 7 \<in> set gs"
    by (simp add: mk_world_def up_def node_init_def)
  from get_node_lookup_frame [OF h] obtain nd where "get_node ?w 7 = (Inr nd, ?w)" by blast
  moreover have "fst (get_node ?w 7) = Inr 1"
    by (simp add: get_node_def mk_world_def up_def node_init_def)
  ultimately show ?thesis by simp
qed

text \<open>
  Claim C7. For a guild id that is in no assignment list, with the keys of the registry
  distinct and some ready node holding fewer than \<open>1e10\<close> guilds (the starting value of
  \<open>guild_count\<close>), \<open>get_node\<close> returns a ready node whose list is no longer than that of
  any ready node and strictly shorter than that of every ready node registered before it,
  and appends the guild id to the list of that node and to no other.
\<close>

theorem get_node_least_used:
  assumes dist: "distinct (map fst (registry w))"
    and fresh: "\<forall>(nd, gs) \<in> set (registry w). g \<notin> set gs"
    and some: "\<exists>(nd, gs) \<in> set (registry w). ready (heap w nd) \<and> length gs < 10000000000"
  shows "\<exists>pre nd gs post. registry w = pre @ (nd, gs) # post \<and> ready (heap w nd)
           \<and> (\<forall>(m, hs) \<in> set pre. ready (heap w m) \<longrightarrow> length gs < length hs)
           \<and> (\<forall>(m, hs) \<in> set post. ready (heap w m) \<longrightarrow> length gs \<le> length hs)
           \<and> get_node w g = (Inr nd, w\<lparr>registry := pre @ (nd, gs @ [g]) # post\<rparr>)"
proof -
  from some have ne: "registry w \<noteq> []" by auto
  from fresh have fr: "\<forall>(nd, gs) \<in> set (registry w). ready (heap w nd) \<longrightarrow> g \<notin> set gs" by auto
  from loop_min[OF fr, of 10000000000 None] obtain gc' lu' where
    r: "get_node_loop (heap w) g (registry w) 10000000000 None = Inr (gc', lu')" and
    d: "(gc' = 10000000000 \<and> lu' = None \<and>
          (\<forall>(nd, gs) \<in> set (registry w). ready (heap w nd) \<longrightarrow> 10000000000 \<le> length gs)) \<or>
        (\<exists>pre nd gs post. registry w = pre @ (nd, gs) # post \<and> ready (heap w nd) \<and> length gs = gc' \<and>
          gc' < 10000000000 \<and> lu' = Some nd \<and>
          (\<forall>(m, hs) \<in> set pre. ready (heap w m) \<longrightarrow> length gs < length hs) \<and>
          (\<forall>(m, hs) \<in> set post. ready (heap w m) \<longrightarrow> length gs \<le> length hs))" by blast
  from some have "\<not> (\<forall>(nd, gs) \<in> set (registry w). ready (heap w nd) \<longrightarrow> 10000000000 \<le> length gs)"
    by fastforce
  with d obtain pre nd gs post where p: "registry w = pre @ (nd, gs) # post" "ready (heap w nd)"
      "lu' = Some nd"
      "\<forall>(m, hs) \<in> set pre. ready (heap w m) \<longrightarrow> length gs < length hs"
      "\<forall>(m, hs) \<in> set post. ready (heap w m) \<longrightarrow> length gs \<le> length hs" by blast
  from dist p(1) have "dict_append nd g (registry w) = pre @ (nd, gs @ [g]) # post"
    by (simp only: dict_append_split)
  with r p(3) ne have "get_node w g = (Inr nd, w\<lparr>registry := pre @ (nd, gs @ [g]) # post\<rparr>)"
    by (simp add: get_node_def)
  with p show ?thesis by blast
qed

theorem get_node_least_used_witness:
  "get_node (mk_world [up (node_init ''a'' ''pw'' 1 2), up (node_init ''b'' ''pw'' 1 2), up (node_init ''c'' ''pw'' 1 2)]
               [(0, [4, 5]), (1, []), (2, [])]) 9
     = (Inr 1, mk_world [up (node_init ''a'' ''pw'' 1 2), up (node_init ''b'' ''pw'' 1 2), up (node_init ''c'' ''pw'' 1 2)]
               [(0, [4, 5]), (1, [9]), (2, [])])"
proof -
  let ?w = "mk_world [up (node_init ''a'' ''pw'' 1 2), up (node_init ''b'' ''pw'' 1 2), up (node_init ''c'' ''pw'' 1 2)] [(0, [4, 5]), (1, []), (2, [])]"
  have d: "distinct (map fst (registry ?w))" by (simp add: mk_world_def)
  have f: "\<forall>(nd, gs) \<in> set (registry ?w). 9 \<notin> set gs" by (simp add: mk_world_def)
  have s: "\<exists>(nd, gs) \<in> set (registry ?w). ready (heap ?w nd) \<and> length gs < 10000000000"
    by (simp add: mk_world_def up_def node_init_def)
  have e: "get_node ?w 9 = (Inr 1, ?w\<lparr>registry := [(0, [4, 5]), (1, [9]), (2, [])]\<rparr>)"
    using get_node_least_used [OF d f s]
    by (simp add: get_node_def mk_world_def up_def node_init_def)
  then show ?thesis by (simp add: mk_world_def)
qed






section \<open>Connection attempts and the outbound queue\<close>

lemma mtc_guard_false:
  "is_shutdown self \<or> ws_open self \<Longrightarrow>
     multi_try_connect E u self a now = Some (now, a, Returned None)"
  by (subst multi_try_connect.simps) auto

lemma mtc_opened:
  "\<not> is_shutdown self \<Longrightarrow> \<not> ws_open self \<Longrightarrow> outcome E u a = Opened \<Longrightarrow>
     multi_try_connect E u self a now =
       Some (now + took E u a, a, Returned (Some \<lparr>peer = u, sock_open = True, sent = []\<rparr>))"
  by (subst multi_try_connect.simps) simp

lemma mtc_rejected:
  "\<not> is_shutdown self \<Longrightarrow> \<not> ws_open self \<Longrightarrow> outcome E u a = InvalidStatusCode \<Longrightarrow>
     multi_try_connect E u self a now = Some (now + took E u a, a, Returned None)"
  by (subst multi_try_connect.simps) simp

lemma mtc_other:
  "\<not> is_shutdown self \<Longrightarrow> \<not> ws_open self \<Longrightarrow> outcome E u a = OtherError \<Longrightarrow>
     multi_try_connect E u self a now = Some (now + took E u a, a, Raised)"
  by (subst multi_try_connect.simps) simp

lemma mtc_oserror:
  "\<not> is_shutdown self \<Longrightarrow> \<not> ws_open self \<Longrightarrow> outcome E u a = OSError \<Longrightarrow>
     multi_try_connect E u self a now =
       multi_try_connect E u self (a + 1) (now + took E u a + delay E u a)"
  by (subst multi_try_connect.simps) simp

lemma mtc_retries:
  assumes "\<not> is_shutdown self" "\<not> ws_open self"
  shows "(\<forall>k<n. outcome E u (a + k) = OSError) \<Longrightarrow>
     multi_try_connect E u self a now =
       multi_try_connect E u self (a + n) (now + (\<Sum>k<n. took E u (a + k) + delay E u (a + k)))"
proof (induction n)
  case 0
  then show ?case by simp
next
  case (Suc n)
  then have "multi_try_connect E u self a now =
       multi_try_connect E u self (a + n) (now + (\<Sum>k<n. took E u (a + k) + delay E u (a + k)))"
    by simp
  also from Suc.prems have "outcome E u (a + n) = OSError" by simp
  from mtc_oserror[OF assms this]
  have "multi_try_connect E u self (a + n) (now + (\<Sum>k<n. took E u (a + k) + delay E u (a + k))) =
     multi_try_connect E u self (a + Suc n) (now + (\<Sum>k<Suc n. took E u (a + k) + delay E u (a + k)))"
    by (simp add: add.assoc)
  finally show ?case .
qed

lemma mtc_forever_aux:
  assumes "multi_try_connect E u self a now = Some y"
  shows "\<not> (\<not> is_shutdown self \<and> \<not> ws_open self \<and> (\<forall>k\<ge>a. outcome E u k = OSError))"
proof (rule multi_try_connect.raw_induct[where P = "\<lambda>E u self a now y.
          \<not> (\<not> is_shutdown self \<and> \<not> ws_open self \<and> (\<forall>k\<ge>a. outcome E u k = OSError))", OF _ assms])
  fix f :: "env \<Rightarrow> uri \<Rightarrow> node \<Rightarrow> nat \<Rightarrow> nat \<Rightarrow> (nat \<times> nat \<times> task_end) option"
  fix E u self a now y
  assume IH: "\<And>E u self a now y. f E u self a now = Some y \<Longrightarrow>
          \<not> (\<not> is_shutdown self \<and> \<not> ws_open self \<and> (\<forall>k\<ge>a. outcome E u k = OSError))"
  assume step: "(if is_shutdown self = False \<and> \<not> ws_open self
      then case outcome E u a of
           Opened \<Rightarrow> Some (now + took E u a, a, Returned (Some \<lparr>peer = u, sock_open = True, sent = []\<rparr>))
           | OSError \<Rightarrow> f E u self (a + 1) (now + took E u a + delay E u a)
           | InvalidStatusCode \<Rightarrow> Some (now + took E u a, a, Returned None)
           | OtherError \<Rightarrow> Some (now + took E u a, a, Raised)
      else Some (now, a, Returned None)) = Some y"
  show "\<not> (\<not> is_shutdown self \<and> \<not> ws_open self \<and> (\<forall>k\<ge>a. outcome E u k = OSError))"
  proof
    assume g: "\<not> is_shutdown self \<and> \<not> ws_open self \<and> (\<forall>k\<ge>a. outcome E u k = OSError)"
    then have "outcome E u a = OSError" by simp
    with g step have "f E u self (a + 1) (now + took E u a + delay E u a) = Some y" by simp
    from IH[OF this] g show False by simp
  qed
qed

lemma mtc_forever:
  "\<not> is_shutdown self \<Longrightarrow> \<not> ws_open self \<Longrightarrow> \<forall>k\<ge>a. outcome E u k = OSError \<Longrightarrow>
     multi_try_connect E u self a now = None"
  using mtc_forever_aux[of E u self a now] by (cases "multi_try_connect E u self a now") auto

lemma mtc_socket:
  assumes "multi_try_connect E u self a now = Some y"
  shows "case snd (snd y) of Returned (Some s) \<Rightarrow> s = \<lparr>peer = u, sock_open = True, sent = []\<rparr> | _ \<Rightarrow> True"
proof (rule multi_try_connect.raw_induct[where P = "\<lambda>E u self a now y.
          case snd (snd y) of Returned (Some s) \<Rightarrow> s = \<lparr>peer = u, sock_open = True, sent = []\<rparr> | _ \<Rightarrow> True",
          OF _ assms])
  fix f :: "env \<Rightarrow> uri \<Rightarrow> node \<Rightarrow> nat \<Rightarrow> nat \<Rightarrow> (nat \<times> nat \<times> task_end) option"
  fix E u self a now y
  assume IH: "\<And>E u self a now y. f E u self a now = Some y \<Longrightarrow>
          (case snd (snd y) of Returned (Some s) \<Rightarrow> s = \<lparr>peer = u, sock_open = True, sent = []\<rparr> | _ \<Rightarrow> True)"
  assume step: "(if is_shutdown self = False \<and> \<not> ws_open self
      then case outcome E u a of
           Opened \<Rightarrow> Some (now + took E u a, a, Returned (Some \<lparr>peer = u, sock_open = True, sent = []\<rparr>))
           | OSError \<Rightarrow> f E u self (a + 1) (now + took E u a + delay E u a)
           | InvalidStatusCode \<Rightarrow> Some (now + took E u a, a, Returned None)
           | OtherError \<Rightarrow> Some (now + took E u a, a, Raised)
      else Some (now, a, Returned None)) = Some y"
  show "case snd (snd y) of Returned (Some s) \<Rightarrow> s = \<lparr>peer = u, sock_open = True, sent = []\<rparr> | _ \<Rightarrow> True"
  proof (cases "is_shutdown self = False \<and> \<not> ws_open self")
    case False
    with step show ?thesis by auto
  next
    case True
    show ?thesis
    proof (cases "outcome E u a")
      case OSError
      with True step have "f E u self (a + 1) (now + took E u a + delay E u a) = Some y" by simp
      from IH[OF this] show ?thesis .
    qed (use True step in auto)
  qed
qed

lemma mtc_socket':
  "multi_try_connect E u self a now = Some (t, a', Returned (Some s)) \<Longrightarrow>
     s = \<lparr>peer = u, sock_open = True, sent = []\<rparr>"
  using mtc_socket[of E u self a now "(t, a', Returned (Some s))"] by simp

lemma send_open:
  "ws self = Some s \<Longrightarrow> sock_open s \<Longrightarrow> send self f = self\<lparr>ws := Some (s\<lparr>sent := sent s @ [f]\<rparr>)\<rparr>"
  by (simp add: send_def)

lemma send_closed:
  "\<not> ws_open self \<Longrightarrow> send self f = self\<lparr>queue := queue self @ [f]\<rparr>"
  by (auto simp: send_def ws_open_def split: option.splits)

lemma ws_open_send: "ws_open self \<Longrightarrow> ws_open (send self f) \<and> queue (send self f) = queue self"
  by (auto simp: send_def ws_open_def split: option.splits)

lemma send_keeps:
  "ready (send self f) = ready self" "is_shutdown (send self f) = is_shutdown self"
  "players (send self f) = players self" "listener_task (send self f) = listener_task self"
  "ws self \<noteq> None \<Longrightarrow> ws (send self f) \<noteq> None"
  by (auto simp: send_def split: option.splits)

lemma apply_event_keeps:
  "ready (apply_event other e self) = ready self"
  "is_shutdown (apply_event other e self) = is_shutdown self"
  "players (apply_event other e self) = players self"
  "listener_task (apply_event other e self) = listener_task self"
  "queue (apply_event other e self) = queue self"
  "ws self \<noteq> None \<Longrightarrow> ws (apply_event other e self) \<noteq> None"
  by (cases e; simp)+

text \<open>
  What a loop over the queue that ends has done: it never found the connection closed
  with a frame still to send, it wrote the frames from its index on, in order, and it left
  the flags, the players and the queue of the node alone.
\<close>

lemma flush_result:
  assumes "flush_queue E other i self = Some y"
  shows "(i < length (queue self) \<longrightarrow> ws_open self) \<and> snd y = drop i (queue self) \<and> fst y \<noteq> []
     \<and> (\<forall>n \<in> set (fst y). ready n = ready self \<and> is_shutdown n = is_shutdown self
            \<and> listener_task n = listener_task self \<and> players n = players self
            \<and> queue n = queue self \<and> (ws self \<noteq> None \<longrightarrow> ws n \<noteq> None))"
proof (rule flush_queue.raw_induct[where P = "\<lambda>E other i self y.
     (i < length (queue self) \<longrightarrow> ws_open self) \<and> snd y = drop i (queue self) \<and> fst y \<noteq> []
     \<and> (\<forall>n \<in> set (fst y). ready n = ready self \<and> is_shutdown n = is_shutdown self
            \<and> listener_task n = listener_task self \<and> players n = players self
            \<and> queue n = queue self \<and> (ws self \<noteq> None \<longrightarrow> ws n \<noteq> None))", OF _ assms])
  fix f :: "env \<Rightarrow> uri \<Rightarrow> nat \<Rightarrow> node \<Rightarrow> (node list \<times> frame list) option"
  fix E other i self y
  assume IH: "\<And>E other i self y. f E other i self = Some y \<Longrightarrow>
     (i < length (queue self) \<longrightarrow> ws_open self) \<and> snd y = drop i (queue self) \<and> fst y \<noteq> []
     \<and> (\<forall>n \<in> set (fst y). ready n = ready self \<and> is_shutdown n = is_shutdown self
            \<and> listener_task n = listener_task self \<and> players n = players self
            \<and> queue n = queue self \<and> (ws self \<noteq> None \<longrightarrow> ws n \<noteq> None))"
  assume step: "(if i < length (queue self) then
        (let data = queue self ! i;
             written = send self data;
             resumed = (if ws_open self then apply_event other (interference E (Suc i)) written
                        else written)
         in Option.bind (f E other (Suc i) resumed)
              (\<lambda>r. Some (self # written # fst r, (if ws_open self then [data] else []) @ snd r)))
      else Some ([self], [])) = Some y"
  show "(i < length (queue self) \<longrightarrow> ws_open self) \<and> snd y = drop i (queue self) \<and> fst y \<noteq> []
     \<and> (\<forall>n \<in> set (fst y). ready n = ready self \<and> is_shutdown n = is_shutdown self
            \<and> listener_task n = listener_task self \<and> players n = players self
            \<and> queue n = queue self \<and> (ws self \<noteq> None \<longrightarrow> ws n \<noteq> None))"
  proof (cases "i < length (queue self)")
    case False
    with step have "y = ([self], [])" by simp
    with False show ?thesis by simp
  next
    case lt: True
    let ?data = "queue self ! i"
    let ?written = "send self ?data"
    show ?thesis
    proof (cases "ws_open self")
      case False
      let ?resumed = "?written"
      from step lt False obtain r where r: "f E other (Suc i) ?resumed = Some r"
        by (auto simp: Let_def split: bind_splits)
      from False have q: "queue ?written = queue self @ [?data]" and c: "\<not> ws_open ?written"
        by (simp_all add: send_closed ws_open_def)
      from IH[OF r] have "Suc i < length (queue ?written) \<longrightarrow> ws_open ?written" by blast
      with q c lt show ?thesis by simp
    next
      case True
      let ?resumed = "apply_event other (interference E (Suc i)) ?written"
      from step lt True obtain r where r: "f E other (Suc i) ?resumed = Some r"
        and y: "y = (self # ?written # fst r, ?data # snd r)"
        by (auto simp: Let_def split: bind_splits)
      from True have wo: "ws self \<noteq> None" by (cases "ws self") (simp_all add: ws_open_def)
      from ws_open_send[OF True] have qw: "queue ?written = queue self" by simp
      then have qr: "queue ?resumed = queue self" by (simp add: apply_event_keeps)
      have kr: "ready ?resumed = ready self" "is_shutdown ?resumed = is_shutdown self"
        "listener_task ?resumed = listener_task self" "players ?resumed = players self"
        "ws ?resumed \<noteq> None"
        using wo by (simp_all add: apply_event_keeps send_keeps)
      from IH[OF r] qr kr have s: "snd r = drop (Suc i) (queue self)"
        and k: "\<forall>n \<in> set (fst r). ready n = ready self \<and> is_shutdown n = is_shutdown self
            \<and> listener_task n = listener_task self \<and> players n = players self
            \<and> queue n = queue self \<and> ws n \<noteq> None"
        by simp_all
      from lt s have d: "?data # snd r = drop i (queue self)" by (simp add: Cons_nth_drop_Suc)
      from wo have ww: "ws ?written \<noteq> None" by (rule send_keeps)
      have "fst y \<noteq> []" "snd y = drop i (queue self)" using y d by simp_all
      moreover have "\<forall>n \<in> set (fst y). ready n = ready self \<and> is_shutdown n = is_shutdown self
            \<and> listener_task n = listener_task self \<and> players n = players self
            \<and> queue n = queue self \<and> (ws self \<noteq> None \<longrightarrow> ws n \<noteq> None)"
        using y k qw ww by (simp add: send_keeps)
      ultimately show ?thesis using True by blast
    qed
  qed
qed

lemma flush_quiet:
  "quiet E \<Longrightarrow> ws_open self \<Longrightarrow>
     flush_queue E other i self = Some (sends self (drop i (queue self)), drop i (queue self))"
proof (induction "length (queue self) - i" arbitrary: i self)
  case 0
  then show ?case by (subst flush_queue.simps) simp
next
  case (Suc m)
  then have lt: "i < length (queue self)" by simp
  let ?n = "send self (queue self ! i)"
  from ws_open_send[OF Suc.prems(2)] have o: "ws_open ?n" and q: "queue ?n = queue self" by simp_all
  from Suc.hyps(2) q have "m = length (queue ?n) - Suc i" by simp
  from Suc.hyps(1)[OF this Suc.prems(1) o] q
  have "flush_queue E other (Suc i) ?n
      = Some (sends ?n (drop (Suc i) (queue self)), drop (Suc i) (queue self))"
    by simp
  moreover from lt have "drop i (queue self) = queue self ! i # drop (Suc i) (queue self)"
    by (simp add: Cons_nth_drop_Suc)
  moreover from Suc.prems(1) have "interference E (Suc i) = Quiet" by (simp add: quiet_def)
  ultimately show ?case using lt Suc.prems(2) by (subst flush_queue.simps) (simp add: Let_def)
qed

lemma foldl_send_open:
  "ws self = Some s \<Longrightarrow> sock_open s \<Longrightarrow>
     foldl send self fs = self\<lparr>ws := Some (s\<lparr>sent := sent s @ fs\<rparr>)\<rparr>"
proof (induction fs arbitrary: self s)
  case Nil
  then show ?case by simp
next
  case (Cons f fs)
  let ?s = "s\<lparr>sent := sent s @ [f]\<rparr>"
  from Cons.prems have e: "send self f = self\<lparr>ws := Some ?s\<rparr>" by (simp add: send_open)
  have "foldl send (self\<lparr>ws := Some ?s\<rparr>) fs
      = self\<lparr>ws := Some ?s\<rparr>\<lparr>ws := Some (?s\<lparr>sent := sent ?s @ fs\<rparr>)\<rparr>"
    using Cons.prems by (intro Cons.IH) simp_all
  with e show ?case by simp
qed

lemma foldl_send_closed:
  "\<not> ws_open self \<Longrightarrow> foldl send self fs = self\<lparr>queue := queue self @ fs\<rparr>"
proof (induction fs arbitrary: self)
  case Nil
  then show ?case by simp
next
  case (Cons f fs)
  from Cons.prems have e: "send self f = self\<lparr>queue := queue self @ [f]\<rparr>" by (rule send_closed)
  from Cons.prems have "\<not> ws_open (self\<lparr>queue := queue self @ [f]\<rparr>)" by (simp add: ws_open_def)
  from Cons.IH[OF this] e show ?case by simp
qed

lemma sends_nonempty: "sends self fs \<noteq> []"
  by (cases fs) auto

lemma sends_last: "last (sends self fs) = foldl send self fs"
  by (induction fs arbitrary: self) (auto simp: sends_nonempty)

section \<open>The race of \<open>connect\<close>\<close>

lemma wins_iff:
  "wins timeout task \<longleftrightarrow> (\<exists>t a s. task = Some (t, a, Returned (Some s)) \<and> in_time timeout t)"
  by (induction timeout task rule: wins.induct) auto

lemma set_ended_in_time:
  "set (ended_in_time timeout tasks) = {r. Some r \<in> set tasks \<and> in_time timeout (fst r)}"
  by (induction timeout tasks rule: ended_in_time.induct) auto

lemma length_ended_in_time: "length (ended_in_time timeout tasks) \<le> length tasks"
  by (induction timeout tasks rule: ended_in_time.induct) auto

lemma ended_all_iff:
  "length (ended_in_time None tasks) = length tasks \<longleftrightarrow> None \<notin> set tasks"
proof (induction tasks)
  case Nil
  then show ?case by simp
next
  case (Cons a tasks)
  have "length (ended_in_time None tasks) \<le> length tasks" by (rule length_ended_in_time)
  with Cons show ?case by (cases a) auto
qed

lemma race_loop_skip:
  "\<forall>r \<in> set done. \<forall>s. snd (snd r) \<noteq> Returned (Some s) \<Longrightarrow>
     race_loop (map (\<lambda>r. Result (snd (snd r))) done @ ys) = race_loop ys"
proof (induction "done")
  case Nil
  then show ?case by simp
next
  case (Cons r rs)
  then have "\<forall>s. snd (snd r) \<noteq> Returned (Some s)" by simp
  then have "race_loop (Result (snd (snd r)) # ys) = race_loop ys" for ys
    by (cases "snd (snd r)"; cases "case snd (snd r) of Returned x \<Rightarrow> x | Raised \<Rightarrow> None") auto
  with Cons show ?case by simp
qed

lemma race_loop_break:
  "\<exists>r \<in> set done. \<exists>s. snd (snd r) = Returned (Some s) \<Longrightarrow>
     \<exists>r \<in> set done. \<exists>s. snd (snd r) = Returned (Some s) \<and>
        race_loop (map (\<lambda>r. Result (snd (snd r))) done @ ys) = Break s"
proof (induction "done")
  case Nil
  then show ?case by simp
next
  case (Cons r rs)
  show ?case
  proof (cases "\<exists>s. snd (snd r) = Returned (Some s)")
    case True
    then obtain s where "snd (snd r) = Returned (Some s)" by blast
    then show ?thesis by auto
  next
    case False
    then have skip: "race_loop (Result (snd (snd r)) # ys) = race_loop ys" for ys
      by (cases "snd (snd r)"; cases "case snd (snd r) of Returned x \<Rightarrow> x | Raised \<Rightarrow> None") auto
    from False Cons.prems have "\<exists>r \<in> set rs. \<exists>s. snd (snd r) = Returned (Some s)" by auto
    from Cons.IH[OF this] skip show ?thesis by auto
  qed
qed

lemma race_loop_replicate:
  "race_loop (replicate k TimedOut) = Else"
  "race_loop (replicate k Blocked) = (if k = 0 then Else else Hang)"
  by (induction k) auto

lemma in_sorted_ended:
  "r \<in> set (sort_key fst (ended_in_time timeout tasks)) \<Longrightarrow> snd (snd r) = Returned (Some s) \<Longrightarrow>
     Some (fst r, fst (snd r), Returned (Some s)) \<in> set tasks \<and> in_time timeout (fst r)"
proof -
  assume a: "r \<in> set (sort_key fst (ended_in_time timeout tasks))" "snd (snd r) = Returned (Some s)"
  from a(1) have "r \<in> set (ended_in_time timeout tasks)" by simp
  then have "Some r \<in> set tasks" "in_time timeout (fst r)" by (simp_all add: set_ended_in_time)
  moreover from a(2) have "r = (fst r, fst (snd r), Returned (Some s))"
    by (metis prod.collapse)
  ultimately show ?thesis by metis
qed

lemma race_wins:
  assumes "\<exists>task \<in> set tasks. wins timeout task"
  shows "\<exists>t a s. Some (t, a, Returned (Some s)) \<in> set tasks \<and> in_time timeout t \<and>
           race_loop (as_completed timeout tasks) = Break s"
proof -
  let ?done = "sort_key fst (ended_in_time timeout tasks)"
  let ?ys = "replicate (length tasks - length ?done) (if timeout = None then Blocked else TimedOut)"
  from assms obtain t a s where "Some (t, a, Returned (Some s)) \<in> set tasks" "in_time timeout t"
    by (auto simp: wins_iff)
  then have "(t, a, Returned (Some s)) \<in> set ?done"
    by (simp add: set_ended_in_time)
  then have "\<exists>r \<in> set ?done. \<exists>s. snd (snd r) = Returned (Some s)"
    by force
  from race_loop_break[OF this, of ?ys] obtain r s' where
    r: "r \<in> set ?done" "snd (snd r) = Returned (Some s')"
    and b: "race_loop (map (\<lambda>r. Result (snd (snd r))) ?done @ ?ys) = Break s'"
    by blast
  from b have "race_loop (as_completed timeout tasks) = Break s'"
    by (simp add: as_completed_def Let_def)
  with in_sorted_ended[OF r] show ?thesis by blast
qed

lemma race_no_wins:
  assumes "\<not> (\<exists>task \<in> set tasks. wins timeout task)"
  shows "race_loop (as_completed timeout tasks) =
           (if timeout = None \<and> None \<in> set tasks then Hang else Else)"
proof -
  have "\<forall>r \<in> set (sort_key fst (ended_in_time timeout tasks)). \<forall>s. snd (snd r) \<noteq> Returned (Some s)"
  proof (intro ballI allI notI)
    fix r s
    assume "r \<in> set (sort_key fst (ended_in_time timeout tasks))" "snd (snd r) = Returned (Some s)"
    from in_sorted_ended[OF this] assms show False by (auto simp: wins_iff)
  qed
  from race_loop_skip[OF this]
  have e: "race_loop (as_completed timeout tasks) =
      race_loop (replicate (length tasks - length (ended_in_time timeout tasks))
                   (if timeout = None then Blocked else TimedOut))"
    by (simp add: as_completed_def Let_def)
  show ?thesis
  proof (cases timeout)
    case (Some d)
    with e show ?thesis by (simp add: race_loop_replicate)
  next
    case None
    have "length (ended_in_time None tasks) \<le> length tasks" by (rule length_ended_in_time)
    then have "length tasks - length (ended_in_time None tasks) = 0 \<longleftrightarrow> None \<notin> set tasks"
      using ended_all_iff[of tasks] by auto
    with e None show ?thesis by (simp add: race_loop_replicate)
  qed
qed

lemma connect_unfold:
  "connect E timeout w self =
     (case race_loop (as_completed timeout (connect_tasks E (heap w self))) of
        Hang \<Rightarrow> None
      | Else \<Rightarrow> Some \<lparr>raised = Some TimeoutError,
                       observed = [put_node w self ((heap w self)\<lparr>is_shutdown := False\<rparr>)],
                       flushed = []\<rparr>
      | Break s \<Rightarrow>
          (case flush_queue E (loser_uri (heap w self) s) 0 (flush_start E (heap w self) s) of
             None \<Rightarrow> None
           | Some y \<Rightarrow>
               Some \<lparr>raised = None,
                     observed = put_node w self ((heap w self)\<lparr>is_shutdown := False\<rparr>)
                       # put_node w self ((heap w self)\<lparr>is_shutdown := False, ws := Some s\<rparr>)
                       # map (put_node (w\<lparr>registry := dict_set self [] (registry w)\<rparr>) self) (fst y)
                       @ [put_node (w\<lparr>registry := dict_set self [] (registry w)\<rparr>) self
                            ((last (fst y))\<lparr>ready := True\<rparr>)],
                     flushed = snd y\<rparr>))"
  by (auto simp: connect_def connect_tasks_def loser_uri_def flush_start_def Let_def put_node_def
           split: race.splits option.splits prod.splits)

lemma connect_tasks_socket:
  "Some (t, a, Returned (Some s)) \<in> set (connect_tasks E n) \<Longrightarrow> sock_open s \<and> sent s = []"
  by (auto simp: connect_tasks_def dest!: mtc_socket'[OF sym])

lemma race_Break_elim:
  assumes "race_loop (as_completed timeout tasks) = Break s"
  shows "\<exists>t a. Some (t, a, Returned (Some s)) \<in> set tasks \<and> in_time timeout t"
proof (cases "\<exists>task \<in> set tasks. wins timeout task")
  case True
  from race_wins[OF True] assms show ?thesis by auto
next
  case False
  from race_no_wins[OF False] assms show ?thesis by (simp split: if_splits)
qed

text \<open>A run of \<open>connect\<close> that returns without an exception, taken apart.\<close>

lemma connect_returned:
  assumes "connect E timeout w self = Some r" and "raised r = None"
  shows "\<exists>s ns. race_loop (as_completed timeout (connect_tasks E (heap w self))) = Break s
      \<and> sock_open s \<and> sent s = []
      \<and> flush_queue E (loser_uri (heap w self) s) 0 (flush_start E (heap w self) s)
          = Some (ns, flushed r)
      \<and> observed r = put_node w self ((heap w self)\<lparr>is_shutdown := False\<rparr>)
          # put_node w self ((heap w self)\<lparr>is_shutdown := False, ws := Some s\<rparr>)
          # map (put_node (w\<lparr>registry := dict_set self [] (registry w)\<rparr>) self) ns
          @ [put_node (w\<lparr>registry := dict_set self [] (registry w)\<rparr>) self
               ((last ns)\<lparr>ready := True\<rparr>)]"
proof (cases "race_loop (as_completed timeout (connect_tasks E (heap w self)))")
  case (Break s)
  from race_Break_elim[OF Break] obtain t a where
    "Some (t, a, Returned (Some s)) \<in> set (connect_tasks E (heap w self))" by blast
  from connect_tasks_socket[OF this] have o: "sock_open s" "sent s = []" by simp_all
  from assms(1) Break obtain y where
    y: "flush_queue E (loser_uri (heap w self) s) 0 (flush_start E (heap w self) s) = Some y"
    by (cases "flush_queue E (loser_uri (heap w self) s) 0 (flush_start E (heap w self) s)")
       (simp_all add: connect_unfold)
  with assms(1) Break have
    "r = \<lparr>raised = None,
          observed = put_node w self ((heap w self)\<lparr>is_shutdown := False\<rparr>)
            # put_node w self ((heap w self)\<lparr>is_shutdown := False, ws := Some s\<rparr>)
            # map (put_node (w\<lparr>registry := dict_set self [] (registry w)\<rparr>) self) (fst y)
            @ [put_node (w\<lparr>registry := dict_set self [] (registry w)\<rparr>) self
                 ((last (fst y))\<lparr>ready := True\<rparr>)],
          flushed = snd y\<rparr>"
    by (simp add: connect_unfold)
  then have "flushed r = snd y"
    and "observed r = put_node w self ((heap w self)\<lparr>is_shutdown := False\<rparr>)
            # put_node w self ((heap w self)\<lparr>is_shutdown := False, ws := Some s\<rparr>)
            # map (put_node (w\<lparr>registry := dict_set self [] (registry w)\<rparr>) self) (fst y)
            @ [put_node (w\<lparr>registry := dict_set self [] (registry w)\<rparr>) self
                 ((last (fst y))\<lparr>ready := True\<rparr>)]"
    by simp_all
  with y Break o show ?thesis by (cases y) auto
next
  case Else
  with assms show ?thesis by (auto simp: connect_unfold)
next
  case Hang
  with assms show ?thesis by (auto simp: connect_unfold)
qed

lemma flush_start_keeps:
  "ready (flush_start E n s) = ready n" "is_shutdown (flush_start E n s) = False"
  "players (flush_start E n s) = players n" "listener_task (flush_start E n s) = True"
  "queue (flush_start E n s) = queue n" "ws (flush_start E n s) \<noteq> None"
  by (simp_all add: flush_start_def apply_event_keeps)

text \<open>What every node of a run that returns without an exception looks like.\<close>

lemma connect_returned_nodes:
  assumes "connect E timeout w self = Some r" and "raised r = None"
  shows "observed r \<noteq> []"
    and "\<forall>v \<in> set (butlast (observed r)). ready (heap v self) = ready (heap w self)"
    and "\<forall>v \<in> set (observed r). \<not> is_shutdown (heap v self)
            \<and> queue (heap v self) = queue (heap w self)
            \<and> players (heap v self) = players (heap w self)"
    and "ready (heap (last (observed r)) self)"
    and "listener_task (heap (last (observed r)) self)"
    and "ws (heap (last (observed r)) self) \<noteq> None"
    and "registry (last (observed r)) = dict_set self [] (registry w)"
    and "flushed r = queue (heap w self)"
proof -
  let ?n = "heap w self"
  let ?w1 = "w\<lparr>registry := dict_set self [] (registry w)\<rparr>"
  from connect_returned[OF assms] obtain s ns where
    f: "flush_queue E (loser_uri ?n s) 0 (flush_start E ?n s) = Some (ns, flushed r)" and
    ob: "observed r = put_node w self (?n\<lparr>is_shutdown := False\<rparr>)
          # put_node w self (?n\<lparr>is_shutdown := False, ws := Some s\<rparr>)
          # map (put_node ?w1 self) ns
          @ [put_node ?w1 self ((last ns)\<lparr>ready := True\<rparr>)]" by blast
  from flush_result[OF f] have ne: "ns \<noteq> []" and fl: "flushed r = queue ?n"
    and k: "\<forall>n \<in> set ns. ready n = ready ?n \<and> is_shutdown n = False
            \<and> listener_task n = True \<and> players n = players ?n
            \<and> queue n = queue ?n \<and> ws n \<noteq> None"
    by (simp_all add: flush_start_keeps)
  from ne have l: "last ns \<in> set ns" by simp
  show "observed r \<noteq> []" by (simp add: ob)
  have b: "butlast (observed r) = put_node w self (?n\<lparr>is_shutdown := False\<rparr>)
          # put_node w self (?n\<lparr>is_shutdown := False, ws := Some s\<rparr>)
          # map (put_node ?w1 self) ns"
    by (simp add: ob butlast_append)
  show "\<forall>v \<in> set (butlast (observed r)). ready (heap v self) = ready (heap w self)"
    unfolding b using k by (auto simp: put_node_def)
  show "\<forall>v \<in> set (observed r). \<not> is_shutdown (heap v self)
            \<and> queue (heap v self) = queue (heap w self)
            \<and> players (heap v self) = players (heap w self)"
    unfolding ob using k l by (auto simp: put_node_def)
  have la: "last (observed r) = put_node ?w1 self ((last ns)\<lparr>ready := True\<rparr>)" by (simp add: ob)
  show "ready (heap (last (observed r)) self)" by (simp add: la put_node_def)
  show "listener_task (heap (last (observed r)) self)" using k l by (simp add: la put_node_def)
  show "ws (heap (last (observed r)) self) \<noteq> None" using k l by (simp add: la put_node_def)
  show "registry (last (observed r)) = dict_set self [] (registry w)" by (simp add: la put_node_def)
  show "flushed r = queue (heap w self)" by (rule fl)
qed

text \<open>With a task that wins and nothing happening afterwards \<open>connect\<close> returns.\<close>

lemma connect_quiet:
  assumes "race_loop (as_completed timeout (connect_tasks E (heap w self))) = Break s"
    and "sock_open s" and "sent s = []" and "quiet E"
  shows "connect E timeout w self =
     Some \<lparr>raised = None,
           observed = put_node w self ((heap w self)\<lparr>is_shutdown := False\<rparr>)
             # put_node w self ((heap w self)\<lparr>is_shutdown := False, ws := Some s\<rparr>)
             # map (put_node (w\<lparr>registry := dict_set self [] (registry w)\<rparr>) self)
                 (sends ((heap w self)\<lparr>is_shutdown := False, ws := Some s, listener_task := True\<rparr>)
                        (queue (heap w self)))
             @ [put_node (w\<lparr>registry := dict_set self [] (registry w)\<rparr>) self
                  ((heap w self)\<lparr>is_shutdown := False, listener_task := True,
                                 ws := Some (s\<lparr>sent := queue (heap w self)\<rparr>), ready := True\<rparr>)],
           flushed = queue (heap w self)\<rparr>"
proof -
  let ?n = "(heap w self)\<lparr>is_shutdown := False, ws := Some s, listener_task := True\<rparr>"
  from assms(4) have st: "flush_start E (heap w self) s = ?n"
    by (simp add: flush_start_def quiet_def)
  have o: "ws_open ?n" using assms(2) by (simp add: ws_open_def)
  have f: "flush_queue E (loser_uri (heap w self) s) 0 ?n
             = Some (sends ?n (queue (heap w self)), queue (heap w self))"
    using flush_quiet[OF assms(4) o, of "loser_uri (heap w self) s" 0] by simp
  have l: "last (sends ?n (queue (heap w self))) = ?n\<lparr>ws := Some (s\<lparr>sent := queue (heap w self)\<rparr>)\<rparr>"
    using foldl_send_open[of ?n s "queue (heap w self)"] assms(2,3) by (simp add: sends_last)
  show ?thesis
    by (simp add: connect_unfold assms(1) st f l)
qed

text \<open>
  When the peer closes the new connection before \<open>connect\<close> goes on and a frame is
  queued, the loop over the queue appends for ever and \<open>connect\<close> never returns, with or
  without a timeout.
\<close>

lemma connect_hangs_on_closed:
  assumes "race_loop (as_completed timeout (connect_tasks E (heap w self))) = Break s"
    and "interference E 0 = PeerCloses" and "queue (heap w self) \<noteq> []"
  shows "connect E timeout w self = None"
proof (cases "flush_queue E (loser_uri (heap w self) s) 0 (flush_start E (heap w self) s)")
  case None
  with assms(1) show ?thesis by (simp add: connect_unfold)
next
  case (Some y)
  from flush_result[OF Some] assms(3)
  have "ws_open (flush_start E (heap w self) s)" by (simp add: flush_start_keeps)
  with assms(2) show ?thesis by (simp add: flush_start_def ws_open_def)
qed


text \<open>
  Claim C6, as the code has it. \<open>connect\<close> raises \<open>TimeoutError\<close> exactly when the race ends
  with no task having returned a connection: the timeout has passed first, or, with or
  without a timeout, both tasks have ended with no connection. Without a timeout every
  task that ends counts as in time. When it raises, the world differs from the one it was
  called in by the cleared shutdown flag alone. A run that returns and does not raise
  \<open>TimeoutError\<close> raises nothing, and a task has won.
\<close>

theorem connect_timeout_iff:
  "((\<exists>r. connect E timeout w self = Some r \<and> raised r = Some TimeoutError) \<longleftrightarrow>
       \<not> (\<exists>task \<in> set (connect_tasks E (heap w self)). wins timeout task)
       \<and> (timeout \<noteq> None \<or> None \<notin> set (connect_tasks E (heap w self))))
   \<and> (\<forall>r. connect E timeout w self = Some r \<and> raised r = Some TimeoutError \<longrightarrow>
         observed r = [put_node w self ((heap w self)\<lparr>is_shutdown := False\<rparr>)])
   \<and> (\<forall>r. connect E timeout w self = Some r \<and> raised r \<noteq> Some TimeoutError \<longrightarrow>
         raised r = None \<and> (\<exists>task \<in> set (connect_tasks E (heap w self)). wins timeout task))"
proof (cases "\<exists>task \<in> set (connect_tasks E (heap w self)). wins timeout task")
  case True
  from race_wins[OF True] obtain s where
    b: "race_loop (as_completed timeout (connect_tasks E (heap w self))) = Break s" by blast
  have "raised r = None" if "connect E timeout w self = Some r" for r
    using that b by (auto simp: connect_unfold split: option.splits)
  with True show ?thesis by auto
next
  case False
  from race_no_wins[OF False] False show ?thesis
    by (auto simp: connect_unfold split: if_splits)
qed

lemma mtc_raised_aux:
  assumes "multi_try_connect E u self a now = Some y"
  shows "snd (snd y) = Raised \<longrightarrow> outcome E u (fst (snd y)) = OtherError"
proof (rule multi_try_connect.raw_induct[where P = "\<lambda>E u self a now y.
          snd (snd y) = Raised \<longrightarrow> outcome E u (fst (snd y)) = OtherError", OF _ assms])
  fix f :: "env \<Rightarrow> uri \<Rightarrow> node \<Rightarrow> nat \<Rightarrow> nat \<Rightarrow> (nat \<times> nat \<times> task_end) option"
  fix E u self a now y
  assume IH: "\<And>E u self a now y. f E u self a now = Some y \<Longrightarrow>
          snd (snd y) = Raised \<longrightarrow> outcome E u (fst (snd y)) = OtherError"
  assume step: "(if is_shutdown self = False \<and> \<not> ws_open self
      then case outcome E u a of
           Opened \<Rightarrow> Some (now + took E u a, a, Returned (Some \<lparr>peer = u, sock_open = True, sent = []\<rparr>))
           | OSError \<Rightarrow> f E u self (a + 1) (now + took E u a + delay E u a)
           | InvalidStatusCode \<Rightarrow> Some (now + took E u a, a, Returned None)
           | OtherError \<Rightarrow> Some (now + took E u a, a, Raised)
      else Some (now, a, Returned None)) = Some y"
  show "snd (snd y) = Raised \<longrightarrow> outcome E u (fst (snd y)) = OtherError"
  proof (cases "is_shutdown self = False \<and> \<not> ws_open self")
    case False
    with step show ?thesis by auto
  next
    case True
    show ?thesis
    proof (cases "outcome E u a")
      case OSError
      with True step have "f E u self (a + 1) (now + took E u a + delay E u a) = Some y" by simp
      from IH[OF this] show ?thesis .
    qed (use True step in auto)
  qed
qed

text \<open>
  Claim C5. For a task started on a node that is not shut down and has no open connection:
  after \<open>n\<close> calls of \<open>websockets.connect\<close> that raised \<open>OSError\<close>, each followed by one
  sleep of the delay the backoff gave, a call that opens a connection makes the task return
  it at attempt \<open>a + n\<close>; a call rejected with \<open>InvalidStatusCode\<close> makes the task return
  \<open>None\<close> at that same attempt, with no further call and no sleep; if every call raises
  \<open>OSError\<close> the task never ends; and a task ends with an exception only when a call
  raised something that is neither of the two.
\<close>

theorem multi_try_connect_retry_policy:
  assumes "\<not> is_shutdown self" and "\<not> ws_open self"
    and "\<forall>k<n. outcome E u (a + k) = OSError"
  shows "(outcome E u (a + n) = Opened \<longrightarrow>
            multi_try_connect E u self a now =
              Some (now + (\<Sum>k<n. took E u (a + k) + delay E u (a + k)) + took E u (a + n), a + n,
                    Returned (Some \<lparr>peer = u, sock_open = True, sent = []\<rparr>)))
     \<and> (outcome E u (a + n) = InvalidStatusCode \<longrightarrow>
            multi_try_connect E u self a now =
              Some (now + (\<Sum>k<n. took E u (a + k) + delay E u (a + k)) + took E u (a + n), a + n,
                    Returned None))
     \<and> ((\<forall>k. outcome E u (a + k) = OSError) \<longrightarrow> multi_try_connect E u self a now = None)
     \<and> (\<forall>t a'. multi_try_connect E u self a now = Some (t, a', Raised) \<longrightarrow> outcome E u a' = OtherError)"
proof -
  note r = mtc_retries[OF assms(1,2,3), of now]
  have 1: "outcome E u (a + n) = Opened \<longrightarrow>
            multi_try_connect E u self a now =
              Some (now + (\<Sum>k<n. took E u (a + k) + delay E u (a + k)) + took E u (a + n), a + n,
                    Returned (Some \<lparr>peer = u, sock_open = True, sent = []\<rparr>))"
    using r mtc_opened[OF assms(1,2), of E u "a + n"] by simp
  have 2: "outcome E u (a + n) = InvalidStatusCode \<longrightarrow>
            multi_try_connect E u self a now =
              Some (now + (\<Sum>k<n. took E u (a + k) + delay E u (a + k)) + took E u (a + n), a + n,
                    Returned None)"
    using r mtc_rejected[OF assms(1,2), of E u "a + n"] by simp
  have 3: "(\<forall>k. outcome E u (a + k) = OSError) \<longrightarrow> multi_try_connect E u self a now = None"
  proof
    assume h: "\<forall>k. outcome E u (a + k) = OSError"
    have "\<forall>k\<ge>a. outcome E u k = OSError"
    proof (intro allI impI)
      fix k assume "a \<le> k"
      then have "k = a + (k - a)" by simp
      with h show "outcome E u k = OSError" by metis
    qed
    from mtc_forever[OF assms(1,2) this] show "multi_try_connect E u self a now = None" .
  qed
  have 4: "\<forall>t a'. multi_try_connect E u self a now = Some (t, a', Raised) \<longrightarrow> outcome E u a' = OtherError"
    using mtc_raised_aux[of E u self a now] by auto
  from 1 2 3 4 show ?thesis by blast
qed

section \<open>Shutdown and reconnection\<close>

lemma destroy_players_closed:
  "\<not> ws_open self \<Longrightarrow> players self = ps \<Longrightarrow>
     destroy_players destroy ps self =
       self\<lparr>queue := queue self @ concat (map destroy ps), players := []\<rparr>"
proof (induction ps arbitrary: self)
  case Nil
  then show ?case by simp
next
  case (Cons p ps)
  let ?n = "self\<lparr>players := ps\<rparr>"
  let ?m = "?n\<lparr>queue := queue ?n @ destroy p\<rparr>"
  from Cons.prems have c: "\<not> ws_open ?n" by (simp add: ws_open_def)
  from foldl_send_closed[OF c] have f: "foldl send ?n (destroy p) = ?m" .
  have "\<not> ws_open ?m" using c by (simp add: ws_open_def)
  moreover have "players ?m = ps" by simp
  ultimately have "destroy_players destroy ps ?m
      = ?m\<lparr>queue := queue ?m @ concat (map destroy ps), players := []\<rparr>"
    by (rule Cons.IH)
  with f show ?case by simp
qed

lemma dict_pop_keys: "(k, v) \<notin> set (dict_pop k kvs)"
  by (induction kvs) (auto split: if_splits)

lemma dict_pop_idem: "dict_pop k (dict_pop k kvs) = dict_pop k kvs"
  by (induction kvs) auto

lemma dict_pop_other: "(k', v) \<in> set kvs \<Longrightarrow> k' \<noteq> k \<Longrightarrow> (k', v) \<in> set (dict_pop k kvs)"
  by (induction kvs) auto

lemma close_closed: "\<not> sock_open s \<Longrightarrow> s\<lparr>sock_open := False\<rparr> = s"
  by (cases s) simp

lemma disconnect_eq:
  "disconnect destroy w self =
     \<lparr>heap = (heap w)(self := (heap w self)
         \<lparr>is_shutdown := True, ready := False,
          ws := map_option (\<lambda>s. s\<lparr>sock_open := False\<rparr>) (ws (heap w self)),
          queue := queue (heap w self) @ concat (map destroy (players (heap w self))),
          players := []\<rparr>),
      registry = dict_pop self (registry w)\<rparr>"
proof -
  let ?n0 = "(heap w self)\<lparr>is_shutdown := True, ready := False\<rparr>"
  let ?n1 = "?n0\<lparr>ws := map_option (\<lambda>s. s\<lparr>sock_open := False\<rparr>) (ws ?n0)\<rparr>"
  have e: "(if ws_open ?n0 then ?n1 else ?n0) = ?n1"
    by (cases "ws (heap w self)") (auto simp: ws_open_def close_closed)
  have c: "\<not> ws_open ?n1" by (cases "ws (heap w self)") (auto simp: ws_open_def)
  have "destroy_players destroy (players ?n1) ?n1
          = ?n1\<lparr>queue := queue ?n1 @ concat (map destroy (players ?n1)), players := []\<rparr>"
    using c by (rule destroy_players_closed) simp
  then show ?thesis
    unfolding disconnect_def Let_def e by (cases w) (simp add: put_node_def)
qed

text \<open>
  Claim C8. After \<open>disconnect\<close> the node is no key of the registry, its set of players is
  empty, the frames that the teardown of each player sent are in its queue, once per player
  and in the order in which the players were taken out, the node is shut down, not ready
  and has no open connection; and a second \<open>disconnect\<close> leaves that world as it is.
\<close>

theorem disconnect_unbinds:
  "self \<notin> fst ` set (registry (disconnect destroy w self))
   \<and> players (heap (disconnect destroy w self) self) = []
   \<and> queue (heap (disconnect destroy w self) self)
        = queue (heap w self) @ concat (map destroy (players (heap w self)))
   \<and> is_shutdown (heap (disconnect destroy w self) self)
   \<and> \<not> ready (heap (disconnect destroy w self) self)
   \<and> \<not> ws_open (heap (disconnect destroy w self) self)
   \<and> disconnect destroy (disconnect destroy w self) self = disconnect destroy w self"
proof -
  have idem: "disconnect destroy (disconnect destroy w self) self = disconnect destroy w self"
    by (subst (1 2) disconnect_eq, subst disconnect_eq)
       (simp add: dict_pop_idem option.map_comp comp_def)
  have c: "\<not> ws_open (heap (disconnect destroy w self) self)"
    by (cases "ws (heap w self)") (auto simp: disconnect_eq ws_open_def)
  show ?thesis using idem c by (auto simp: disconnect_eq dict_pop_keys)
qed

lemma listener_exit_running:
  "\<not> is_shutdown (heap w self) \<Longrightarrow>
     listener_exit E w self =
       map_option (\<lambda>r. last (observed r))
         (connect E None (put_node w self ((heap w self)\<lparr>ready := False\<rparr>)) self)"
  by (simp add: listener_exit_def reconnect_def put_node_def Let_def split: option.splits)

lemma listener_exit_shutdown:
  "is_shutdown (heap w self) \<Longrightarrow>
     listener_exit E w self = Some (put_node w self ((heap w self)\<lparr>ready := False\<rparr>))"
  by (simp add: listener_exit_def reconnect_def put_node_def Let_def)

lemma connect_not_shutdown:
  "connect E timeout w self = Some r \<Longrightarrow> v \<in> set (observed r) \<Longrightarrow> \<not> is_shutdown (heap v self)"
proof -
  assume a: "connect E timeout w self = Some r" "v \<in> set (observed r)"
  show ?thesis
  proof (cases "raised r = None")
    case True
    from connect_returned_nodes(3)[OF a(1) True] a(2) show ?thesis by blast
  next
    case False
    with a(1) have "observed r = [put_node w self ((heap w self)\<lparr>is_shutdown := False\<rparr>)]"
      by (auto simp: connect_unfold split: race.splits option.splits)
    with a(2) show ?thesis by (simp add: put_node_def)
  qed
qed

lemma connect_ignores_shutdown:
  "connect E timeout (put_node w self ((heap w self)\<lparr>is_shutdown := b\<rparr>)) self = connect E timeout w self"
  by (simp add: connect_unfold connect_tasks_def put_node_def loser_uri_def flush_start_def
        cong: race.case_cong option.case_cong split: race.splits option.splits)

lemma connect_last_nonempty:
  "connect E timeout w self = Some r \<Longrightarrow> observed r \<noteq> []"
  by (auto simp: connect_unfold split: race.splits option.splits)

lemma dict_set_member: "(k, v) \<in> set (dict_set k v kvs)"
  by (induction kvs) auto

text \<open>
  Claim C9. The first statement of \<open>connect\<close> clears the shutdown flag: in every world of a
  run that returns, with or without an exception, the flag is false, and \<open>connect\<close> on a
  node whose flag is set does what it does on the same node with the flag clear. Hence after
  \<open>disconnect\<close> the exit of the listener does not reconnect, and after \<open>disconnect\<close> followed
  by \<open>connect\<close> it does: it calls \<open>connect\<close> with no timeout. A \<open>connect\<close> after
  \<open>disconnect\<close> that returns without an exception leaves the node ready, not shut down,
  with a listener, holding a connection and registered with no guild, the frames left in
  its queue (those of the teardown of its players included) written; and it does return
  so, with an open connection, when the combined port answers in time and nothing happens
  to the node during the run.
\<close>

theorem connect_resets_shutdown:
  "(\<forall>r. connect E timeout w self = Some r \<longrightarrow> (\<forall>v \<in> set (observed r). \<not> is_shutdown (heap v self)))
   \<and> connect E timeout (put_node w self ((heap w self)\<lparr>is_shutdown := True\<rparr>)) self
        = connect E timeout w self
   \<and> listener_exit E (peer_close (disconnect destroy w self) self) self
        = Some (peer_close (disconnect destroy w self) self)
   \<and> (\<forall>r. connect E timeout (disconnect destroy w self) self = Some r \<longrightarrow>
         listener_exit E (peer_close (last (observed r)) self) self
           = map_option (\<lambda>r'. last (observed r'))
               (connect E None
                  (put_node (peer_close (last (observed r)) self) self
                     ((heap (peer_close (last (observed r)) self) self)\<lparr>ready := False\<rparr>)) self))
   \<and> (\<forall>r. connect E timeout (disconnect destroy w self) self = Some r \<and> raised r = None \<longrightarrow>
         ready (heap (last (observed r)) self)
         \<and> \<not> is_shutdown (heap (last (observed r)) self)
         \<and> listener_task (heap (last (observed r)) self)
         \<and> ws (heap (last (observed r)) self) \<noteq> None
         \<and> (self, []) \<in> set (registry (last (observed r)))
         \<and> flushed r = queue (heap w self) @ concat (map destroy (players (heap w self))))
   \<and> (quiet E \<and> outcome E (host (heap w self), rest (heap w self)) 1 = Opened
        \<and> in_time timeout (took E (host (heap w self), rest (heap w self)) 1)
       \<longrightarrow> (\<exists>r. connect E timeout (disconnect destroy w self) self = Some r \<and> raised r = None
              \<and> ready (heap (last (observed r)) self)
              \<and> ws_open (heap (last (observed r)) self)))"
proof -
  let ?d = "disconnect destroy w self"
  have 1: "\<forall>r. connect E timeout w self = Some r \<longrightarrow> (\<forall>v \<in> set (observed r). \<not> is_shutdown (heap v self))"
    using connect_not_shutdown by blast
  have 3: "listener_exit E (peer_close ?d self) self = Some (peer_close ?d self)"
  proof -
    have s: "is_shutdown (heap (peer_close ?d self) self)"
      by (simp add: peer_close_def put_node_def disconnect_eq)
    have "put_node (peer_close ?d self) self
            ((heap (peer_close ?d self) self)\<lparr>ready := False\<rparr>)
          = peer_close ?d self"
      by (cases "heap w self") (simp add: peer_close_def put_node_def disconnect_eq)
    with listener_exit_shutdown[OF s, of E] show ?thesis by simp
  qed
  have 4: "listener_exit E (peer_close (last (observed r)) self) self
           = map_option (\<lambda>r'. last (observed r'))
               (connect E None
                  (put_node (peer_close (last (observed r)) self) self
                     ((heap (peer_close (last (observed r)) self) self)\<lparr>ready := False\<rparr>)) self)"
    if c: "connect E timeout ?d self = Some r" for r
  proof -
    from connect_last_nonempty[OF c] have "last (observed r) \<in> set (observed r)" by simp
    from connect_not_shutdown[OF c this]
    have "\<not> is_shutdown (heap (peer_close (last (observed r)) self) self)"
      by (simp add: peer_close_def put_node_def)
    then show ?thesis by (rule listener_exit_running)
  qed
  have 5: "ready (heap (last (observed r)) self)
         \<and> \<not> is_shutdown (heap (last (observed r)) self)
         \<and> listener_task (heap (last (observed r)) self)
         \<and> ws (heap (last (observed r)) self) \<noteq> None
         \<and> (self, []) \<in> set (registry (last (observed r)))
         \<and> flushed r = queue (heap w self) @ concat (map destroy (players (heap w self)))"
    if c: "connect E timeout ?d self = Some r" and n: "raised r = None" for r
  proof -
    note p = connect_returned_nodes[OF c n]
    from p(1) have "last (observed r) \<in> set (observed r)" by simp
    with p(3) have "\<not> is_shutdown (heap (last (observed r)) self)" by blast
    moreover from p(7) have "(self, []) \<in> set (registry (last (observed r)))"
      by (simp add: dict_set_member)
    moreover from p(8) have "flushed r = queue (heap w self) @ concat (map destroy (players (heap w self)))"
      by (simp add: disconnect_eq)
    ultimately show ?thesis using p(4,5,6) by blast
  qed
  have 6: "\<exists>r. connect E timeout ?d self = Some r \<and> raised r = None
              \<and> ready (heap (last (observed r)) self)
              \<and> ws_open (heap (last (observed r)) self)"
    if q: "quiet E" and o: "outcome E (host (heap w self), rest (heap w self)) 1 = Opened"
      and t: "in_time timeout (took E (host (heap w self), rest (heap w self)) 1)"
  proof -
    let ?n = "(heap ?d self)\<lparr>is_shutdown := False\<rparr>"
    let ?u = "(host (heap w self), rest (heap w self))"
    have hr: "host (heap ?d self) = host (heap w self)" "rest (heap ?d self) = rest (heap w self)"
      by (simp_all add: disconnect_eq)
    have g: "\<not> is_shutdown ?n" "\<not> ws_open ?n"
      by (cases "ws (heap w self)"; simp add: disconnect_eq ws_open_def)+
    from mtc_opened[OF g, of E ?u 1 0] o
    have "multi_try_connect E ?u ?n 1 0
            = Some (took E ?u 1, 1, Returned (Some \<lparr>peer = ?u, sock_open = True, sent = []\<rparr>))"
      by simp
    then have "Some (took E ?u 1, 1, Returned (Some \<lparr>peer = ?u, sock_open = True, sent = []\<rparr>))
                 \<in> set (connect_tasks E (heap ?d self))"
      by (simp add: connect_tasks_def hr)
    with t have "\<exists>task \<in> set (connect_tasks E (heap ?d self)). wins timeout task"
      by (auto simp: wins_iff)
    from race_wins[OF this] obtain t' a s where
      m: "Some (t', a, Returned (Some s)) \<in> set (connect_tasks E (heap ?d self))" and
      b: "race_loop (as_completed timeout (connect_tasks E (heap ?d self))) = Break s" by blast
    from connect_tasks_socket[OF m] have so: "sock_open s" "sent s = []" by simp_all
    from connect_quiet[OF b so q] show ?thesis
      using so by (simp add: put_node_def ws_open_def)
  qed
  from 1 3 4 5 6 show ?thesis by (simp add: connect_ignores_shutdown)
qed

section \<open>Runs on concrete networks\<close>

lemma net_outcome:
  "outcome (net scripts) (h, p) k =
     (case map_of scripts p of None \<Rightarrow> OSError
      | Some xs \<Rightarrow> if 0 < k \<and> k \<le> length xs then xs ! (k - 1) else OSError)"
  "took (net scripts) u k = 1" "delay (net scripts) u k = 2 ^ k"
  by (simp_all add: net_def)

lemma net_quiet: "quiet (net scripts)"
  by (simp add: quiet_def net_def)

lemma ok_tasks:
  assumes "\<not> ws_open n" "rest n = 2332" "port n = 2333"
  shows "connect_tasks (net [(2332, [Opened])]) n =
           [Some (1, 1, Returned (Some \<lparr>peer = (host n, 2332), sock_open = True, sent = []\<rparr>)), None]"
proof -
  let ?n = "n\<lparr>is_shutdown := False\<rparr>"
  have g: "\<not> is_shutdown ?n" "\<not> ws_open ?n" using assms(1) by (simp_all add: ws_open_def)
  have "multi_try_connect (net [(2332, [Opened])]) (host n, 2332) ?n 1 0 =
      Some (1, 1, Returned (Some \<lparr>peer = (host n, 2332), sock_open = True, sent = []\<rparr>))"
    using mtc_opened[OF g, of "net [(2332, [Opened])]" "(host n, 2332)" 1 0]
    by (simp add: net_outcome)
  moreover have "multi_try_connect (net [(2332, [Opened])]) (host n, 2333) ?n 1 0 = None"
    by (rule mtc_forever[OF g]) (simp add: net_outcome)
  ultimately show ?thesis by (simp add: connect_tasks_def assms)
qed

lemma connect_ok:
  assumes "\<not> ws_open (heap w self)" "rest (heap w self) = 2332" "port (heap w self) = 2333"
  shows "connect (net [(2332, [Opened])]) timeout w self =
     (if in_time timeout 1 then
     Some \<lparr>raised = None,
           observed = put_node w self ((heap w self)\<lparr>is_shutdown := False\<rparr>)
             # put_node w self ((heap w self)\<lparr>is_shutdown := False,
                  ws := Some \<lparr>peer = (host (heap w self), 2332), sock_open = True, sent = []\<rparr>\<rparr>)
             # map (put_node (w\<lparr>registry := dict_set self [] (registry w)\<rparr>) self)
                 (sends ((heap w self)\<lparr>is_shutdown := False,
                            ws := Some \<lparr>peer = (host (heap w self), 2332), sock_open = True, sent = []\<rparr>,
                            listener_task := True\<rparr>)
                        (queue (heap w self)))
             @ [put_node (w\<lparr>registry := dict_set self [] (registry w)\<rparr>) self
                  ((heap w self)\<lparr>is_shutdown := False, listener_task := True,
                     ws := Some \<lparr>peer = (host (heap w self), 2332), sock_open = True,
                                 sent = queue (heap w self)\<rparr>, ready := True\<rparr>)],
           flushed = queue (heap w self)\<rparr>
      else Some \<lparr>raised = Some TimeoutError,
                 observed = [put_node w self ((heap w self)\<lparr>is_shutdown := False\<rparr>)],
                 flushed = []\<rparr>)"
proof (cases "in_time timeout 1")
  case True
  let ?s = "\<lparr>peer = (host (heap w self), 2332), sock_open = True, sent = []\<rparr>"
  have "race_loop (as_completed timeout (connect_tasks (net [(2332, [Opened])]) (heap w self))) = Break ?s"
    using True by (simp add: ok_tasks[OF assms] as_completed_def)
  from connect_quiet[OF this _ _ net_quiet] True show ?thesis by simp
next
  case False
  then obtain d where d: "timeout = Some d" by (cases timeout) auto
  with False have "race_loop (as_completed timeout (connect_tasks (net [(2332, [Opened])]) (heap w self))) = Else"
    by (simp add: ok_tasks[OF assms] as_completed_def)
  with False show ?thesis by (simp add: connect_unfold)
qed

lemma rej_tasks:
  assumes "\<not> ws_open n" "rest n = 2332" "port n = 2333"
  shows "connect_tasks (net [(2332, [InvalidStatusCode]), (2333, [InvalidStatusCode])]) n =
           [Some (1, 1, Returned None), Some (1, 1, Returned None)]"
proof -
  let ?n = "n\<lparr>is_shutdown := False\<rparr>"
  let ?E = "net [(2332, [InvalidStatusCode]), (2333, [InvalidStatusCode])]"
  have g: "\<not> is_shutdown ?n" "\<not> ws_open ?n" using assms(1) by (simp_all add: ws_open_def)
  have "multi_try_connect ?E (host n, 2332) ?n 1 0 = Some (1, 1, Returned None)"
    using mtc_rejected[OF g, of ?E "(host n, 2332)" 1 0] by (simp add: net_outcome)
  moreover have "multi_try_connect ?E (host n, 2333) ?n 1 0 = Some (1, 1, Returned None)"
    using mtc_rejected[OF g, of ?E "(host n, 2333)" 1 0] by (simp add: net_outcome)
  ultimately show ?thesis by (simp add: connect_tasks_def assms)
qed

lemma connect_ok_final:
  assumes "\<not> ws_open (heap w self)" "rest (heap w self) = 2332" "port (heap w self) = 2333"
  shows "\<exists>r. connect (net [(2332, [Opened])]) None w self = Some r \<and> raised r = None \<and>
           heap (last (observed r)) self =
             (heap w self)\<lparr>is_shutdown := False, listener_task := True,
                     ws := Some \<lparr>peer = (host (heap w self), 2332), sock_open = True,
                                 sent = queue (heap w self)\<rparr>, ready := True\<rparr>"
  by (simp add: connect_ok[OF assms] put_node_def)

lemma heap_node_send: "heap (node_send w self f) self = send (heap w self) f"
  by (simp add: node_send_def put_node_def)

lemma heap_peer_close:
  "heap (peer_close w self) self =
     (heap w self)\<lparr>ws := map_option (\<lambda>s. s\<lparr>sock_open := False\<rparr>) (ws (heap w self))\<rparr>"
  by (simp add: peer_close_def put_node_def)

text \<open>
  The claim as the specification words it fails: with no timeout, both endpoints rejecting
  the handshake, \<open>connect\<close> raises \<open>TimeoutError\<close>.
\<close>

theorem connect_no_timeout_counterexample:
  "map_option raised
     (connect (net [(2332, [InvalidStatusCode]), (2333, [InvalidStatusCode])]) None
        (mk_world [node_init ''h'' ''pw'' 2333 2332] []) 0)
   = Some (Some TimeoutError)"
proof -
  let ?w = "mk_world [node_init ''h'' ''pw'' 2333 2332] []"
  have "connect_tasks (net [(2332, [InvalidStatusCode]), (2333, [InvalidStatusCode])]) (heap ?w 0)
          = [Some (1, 1, Returned None), Some (1, 1, Returned None)]"
    by (rule rej_tasks) (simp_all add: mk_world_def node_init_def ws_open_def)
  then show ?thesis by (simp add: connect_unfold as_completed_def)
qed

text \<open>
  The combined port answers after one tick and the other port never: with a timeout of one
  tick \<open>connect\<close> raises and leaves the world with nothing but the flag touched, with a
  timeout of two ticks it returns; and with both ports rejecting it raises under a timeout
  as well.
\<close>

theorem connect_timeout_iff_witness:
  "map_option raised
     (connect (net [(2332, [Opened])]) (Some 1) (mk_world [node_init ''h'' ''pw'' 2333 2332] []) 0)
     = Some (Some TimeoutError)
   \<and> map_option observed
     (connect (net [(2332, [Opened])]) (Some 1) (mk_world [node_init ''h'' ''pw'' 2333 2332] []) 0)
     = Some [put_node (mk_world [node_init ''h'' ''pw'' 2333 2332] []) 0
              ((node_init ''h'' ''pw'' 2333 2332)\<lparr>is_shutdown := False\<rparr>)]
   \<and> map_option raised
     (connect (net [(2332, [Opened])]) (Some 2) (mk_world [node_init ''h'' ''pw'' 2333 2332] []) 0)
     = Some None"
proof -
  let ?w = "mk_world [node_init ''h'' ''pw'' 2333 2332] []"
  let ?E = "net [(2332, [Opened])]"
  have h: "\<not> ws_open (heap ?w 0)" "rest (heap ?w 0) = 2332" "port (heap ?w 0) = 2333"
    by (simp_all add: mk_world_def node_init_def ws_open_def)
  have t: "connect_tasks ?E (heap ?w 0) =
           [Some (1, 1, Returned (Some \<lparr>peer = (host (heap ?w 0), 2332), sock_open = True, sent = []\<rparr>)), None]"
    by (rule ok_tasks[OF h])
  have n1: "\<not> (\<exists>task \<in> set (connect_tasks ?E (heap ?w 0)). wins (Some 1) task)"
    by (simp add: t)
  from connect_timeout_iff[of ?E "Some 1" ?w 0] n1 obtain r1 where
    r1: "connect ?E (Some 1) ?w 0 = Some r1" "raised r1 = Some TimeoutError" by blast
  from connect_timeout_iff[of ?E "Some 1" ?w 0] r1
  have a: "observed r1 = [put_node ?w 0 ((heap ?w 0)\<lparr>is_shutdown := False\<rparr>)]" by blast
  from connect_ok[OF h, of "Some 2"] obtain r2 where
    r2: "connect ?E (Some 2) ?w 0 = Some r2" "raised r2 \<noteq> Some TimeoutError" by simp
  from connect_timeout_iff[of ?E "Some 2" ?w 0] r2
  have b: "raised r2 = None" by blast
  have "heap ?w 0 = node_init ''h'' ''pw'' 2333 2332" by (simp add: mk_world_def)
  with a b r1 r2 show ?thesis by simp
qed


text \<open>
  That node is what a new node becomes when it connects, the peer closes the connection
  and a frame is sent before the listener has cleared the flag.
\<close>

lemma stale_ready_reached:
  "map_option (\<lambda>w. heap (node_send (peer_close w 0) 0 (PLAY 1 ''t'')) 0)
     (world_after (connect (net [(2332, [Opened])]) None
                     (mk_world [node_init ''h'' ''pw'' 2333 2332] []) 0))
   = Some ((node_init ''h'' ''pw'' 2333 2332)
             \<lparr>ready := True,
              ws := Some \<lparr>peer = (''h'', 2332), sock_open = False, sent = []\<rparr>,
              listener_task := True, queue := [PLAY 1 ''t'']\<rparr>)"
proof -
  let ?w = "mk_world [node_init ''h'' ''pw'' 2333 2332] []"
  have n: "heap ?w 0 = node_init ''h'' ''pw'' 2333 2332" by (simp add: mk_world_def)
  have h: "\<not> ws_open (heap ?w 0)" "rest (heap ?w 0) = 2332" "port (heap ?w 0) = 2333"
    unfolding n by (simp_all add: node_init_def ws_open_def)
  from connect_ok_final[OF h] obtain r where
    r: "connect (net [(2332, [Opened])]) None ?w 0 = Some r" and
    l: "heap (last (observed r)) 0 =
             (heap ?w 0)\<lparr>is_shutdown := False, listener_task := True,
                     ws := Some \<lparr>peer = (host (heap ?w 0), 2332), sock_open = True,
                                 sent = queue (heap ?w 0)\<rparr>, ready := True\<rparr>" by blast
  have "heap (node_send (peer_close (last (observed r)) 0) 0 (PLAY 1 ''t'')) 0
      = (node_init ''h'' ''pw'' 2333 2332)
             \<lparr>ready := True,
              ws := Some \<lparr>peer = (''h'', 2332), sock_open = False, sent = []\<rparr>,
              listener_task := True, queue := [PLAY 1 ''t'']\<rparr>"
    unfolding heap_node_send heap_peer_close l n by (simp add: node_init_def send_def)
  with r show ?thesis by (simp add: world_after_def)
qed


text \<open>Two refused calls and then a rejection, or a connection; and a port that never answers.\<close>

theorem multi_try_connect_retry_policy_witness:
  "multi_try_connect (net [(2333, [OSError, OSError, InvalidStatusCode])]) (''h'', 2333)
      (node_init ''h'' ''pw'' 2333 2332) 1 0 = Some (9, 3, Returned None)
   \<and> multi_try_connect (net [(2333, [OSError, OSError, Opened])]) (''h'', 2333)
      (node_init ''h'' ''pw'' 2333 2332) 1 0
       = Some (9, 3, Returned (Some \<lparr>peer = (''h'', 2333), sock_open = True, sent = []\<rparr>))
   \<and> multi_try_connect (net []) (''h'', 2333) (node_init ''h'' ''pw'' 2333 2332) 1 0 = None"
proof -
  let ?n = "node_init ''h'' ''pw'' 2333 2332"
  have g: "\<not> is_shutdown ?n" "\<not> ws_open ?n" by (simp_all add: node_init_def ws_open_def)
  have s: "(\<Sum>k<2. f k) = f 0 + f (Suc 0)" for f :: "nat \<Rightarrow> nat"
    by (simp add: numeral_2_eq_2)
  have o1: "\<forall>k<2. outcome (net [(2333, [OSError, OSError, InvalidStatusCode])]) (''h'', 2333) (1 + k) = OSError"
    by (simp add: net_outcome less_Suc_eq numeral_2_eq_2)
  have o2: "\<forall>k<2. outcome (net [(2333, [OSError, OSError, Opened])]) (''h'', 2333) (1 + k) = OSError"
    by (simp add: net_outcome less_Suc_eq numeral_2_eq_2)
  have o3: "\<forall>k<0. outcome (net []) (''h'', 2333) (1 + k) = OSError" by simp
  have 1: "multi_try_connect (net [(2333, [OSError, OSError, InvalidStatusCode])]) (''h'', 2333) ?n 1 0
      = Some (9, 3, Returned None)"
    using multi_try_connect_retry_policy[OF g o1, of 0] by (simp add: s net_outcome)
  have 2: "multi_try_connect (net [(2333, [OSError, OSError, Opened])]) (''h'', 2333) ?n 1 0
       = Some (9, 3, Returned (Some \<lparr>peer = (''h'', 2333), sock_open = True, sent = []\<rparr>))"
    using multi_try_connect_retry_policy[OF g o2, of 0] by (simp add: s net_outcome)
  have 3: "multi_try_connect (net []) (''h'', 2333) ?n 1 0 = None"
    using multi_try_connect_retry_policy[OF g o3, of 0] by (simp add: net_outcome)
  from 1 2 3 show ?thesis by blast
qed

text \<open>
  Claim C1. Frames sent while a node has no connection should reach the next connection in
  the order of the calls, each once, also across a second reconnection. \<open>connect\<close> writes
  the queue to the new connection but never empties it: the frame queued before the first
  connection (\<open>PLAY\<close>) is written to the first connection and then again to the second one,
  ahead of the frame queued in between (\<open>STOP\<close>).
\<close>

theorem queue_replayed_on_reconnect:
  "resend_scenario (net [(2332, [Opened])]) (mk_world [node_init ''h'' ''pw'' 2333 2332] []) 0
      (PLAY 1 ''t'') (STOP 1)
     = Some ([PLAY 1 ''t''], [PLAY 1 ''t'', STOP 1])"
proof -
  let ?E = "net [(2332, [Opened])]"
  let ?w0 = "mk_world [node_init ''h'' ''pw'' 2333 2332] []"
  let ?w1 = "node_send ?w0 0 (PLAY 1 ''t'')"
  have n1: "heap ?w1 0 =
      \<lparr>host = ''h'', port = 2333, rest = 2332, password = ''pw'', is_shutdown = False,
       ready = False, ws = None, listener_task = False, queue = [PLAY 1 ''t''], players = []\<rparr>"
    by (simp add: heap_node_send mk_world_def node_init_def send_def)
  have h1: "\<not> ws_open (heap ?w1 0)" "rest (heap ?w1 0) = 2332" "port (heap ?w1 0) = 2333"
    unfolding n1 by (simp_all add: ws_open_def)
  from connect_ok_final[OF h1] obtain r where
    r: "connect ?E None ?w1 0 = Some r" and
    n2: "heap (last (observed r)) 0 =
             (heap ?w1 0)\<lparr>is_shutdown := False, listener_task := True,
                     ws := Some \<lparr>peer = (host (heap ?w1 0), 2332), sock_open = True,
                                 sent = queue (heap ?w1 0)\<rparr>, ready := True\<rparr>" by blast
  let ?w2 = "last (observed r)"
  let ?w3 = "node_send (peer_close ?w2 0) 0 (STOP 1)"
  have n2': "heap ?w2 0 =
      \<lparr>host = ''h'', port = 2333, rest = 2332, password = ''pw'', is_shutdown = False,
       ready = True, ws = Some \<lparr>peer = (''h'', 2332), sock_open = True, sent = [PLAY 1 ''t'']\<rparr>,
       listener_task = True, queue = [PLAY 1 ''t''], players = []\<rparr>"
    unfolding n2 n1 by simp
  have wire2: "wire 0 ?w2 = [PLAY 1 ''t'']" by (simp add: wire_def n2')
  have n3: "heap ?w3 0 =
      \<lparr>host = ''h'', port = 2333, rest = 2332, password = ''pw'', is_shutdown = False,
       ready = True, ws = Some \<lparr>peer = (''h'', 2332), sock_open = False, sent = [PLAY 1 ''t'']\<rparr>,
       listener_task = True, queue = [PLAY 1 ''t'', STOP 1], players = []\<rparr>"
    unfolding heap_node_send heap_peer_close n2' by (simp add: send_def)
  let ?w4 = "put_node ?w3 0 ((heap ?w3 0)\<lparr>ready := False\<rparr>)"
  have s3: "\<not> is_shutdown (heap ?w3 0)" unfolding n3 by simp
  have n4: "heap ?w4 0 = (heap ?w3 0)\<lparr>ready := False\<rparr>" by (simp add: put_node_def)
  have h4: "\<not> ws_open (heap ?w4 0)" "rest (heap ?w4 0) = 2332" "port (heap ?w4 0) = 2333"
    by (simp_all add: put_node_def n3 ws_open_def)
  from connect_ok_final[OF h4] obtain r' where
    r': "connect ?E None ?w4 0 = Some r'" and
    n5: "heap (last (observed r')) 0 =
             (heap ?w4 0)\<lparr>is_shutdown := False, listener_task := True,
                     ws := Some \<lparr>peer = (host (heap ?w4 0), 2332), sock_open = True,
                                 sent = queue (heap ?w4 0)\<rparr>, ready := True\<rparr>" by blast
  have l: "listener_exit ?E ?w3 0 = Some (last (observed r'))"
    using listener_exit_running[OF s3, of ?E] r' by simp
  have wire5: "wire 0 (last (observed r')) = [PLAY 1 ''t'', STOP 1]"
    by (simp add: wire_def n5 put_node_def n3)
  show ?thesis
    by (simp add: resend_scenario_def r l wire2 wire5)
qed

text \<open>
  A node with one player is disconnected and then connected again: with the combined port
  answering it comes back ready, registered, with an open connection that now carries the
  destroy command of its player; with both ports rejecting \<open>connect\<close> raises, and the
  flag is cleared all the same.
\<close>

theorem connect_resets_shutdown_witness:
  "map_option is_shutdown
     (node_at 0 (world_after (connect (net [(2332, [Opened])]) None
        (disconnect destroy_cmd (mk_world [(node_init ''h'' ''pw'' 2333 2332)\<lparr>players := [5]\<rparr>] [(0, [5])]) 0) 0)))
     = Some False
   \<and> map_option ready
     (node_at 0 (world_after (connect (net [(2332, [Opened])]) None
        (disconnect destroy_cmd (mk_world [(node_init ''h'' ''pw'' 2333 2332)\<lparr>players := [5]\<rparr>] [(0, [5])]) 0) 0)))
     = Some True
   \<and> map_option ws_open
     (node_at 0 (world_after (connect (net [(2332, [Opened])]) None
        (disconnect destroy_cmd (mk_world [(node_init ''h'' ''pw'' 2333 2332)\<lparr>players := [5]\<rparr>] [(0, [5])]) 0) 0)))
     = Some True
   \<and> map_option registry
     (world_after (connect (net [(2332, [Opened])]) None
        (disconnect destroy_cmd (mk_world [(node_init ''h'' ''pw'' 2333 2332)\<lparr>players := [5]\<rparr>] [(0, [5])]) 0) 0))
     = Some [(0, [])]
   \<and> map_option flushed (connect (net [(2332, [Opened])]) None
        (disconnect destroy_cmd (mk_world [(node_init ''h'' ''pw'' 2333 2332)\<lparr>players := [5]\<rparr>] [(0, [5])]) 0) 0)
     = Some [DESTROY 5]
   \<and> is_shutdown (heap (disconnect destroy_cmd
         (mk_world [(node_init ''h'' ''pw'' 2333 2332)\<lparr>players := [5]\<rparr>] [(0, [5])]) 0) 0)
   \<and> map_option is_shutdown
     (node_at 0 (world_after (connect (net [(2332, [InvalidStatusCode]), (2333, [InvalidStatusCode])]) None
        (disconnect destroy_cmd (mk_world [(node_init ''h'' ''pw'' 2333 2332)\<lparr>players := [5]\<rparr>] [(0, [5])]) 0) 0)))
     = Some False"
proof -
  let ?w0 = "mk_world [(node_init ''h'' ''pw'' 2333 2332)\<lparr>players := [5]\<rparr>] [(0, [5])]"
  let ?d = "disconnect destroy_cmd ?w0 0"
  let ?E = "net [(2332, [Opened])]"
  let ?R = "net [(2332, [InvalidStatusCode]), (2333, [InvalidStatusCode])]"
  have n0: "heap ?w0 0 = (node_init ''h'' ''pw'' 2333 2332)\<lparr>players := [5]\<rparr>"
    by (simp add: mk_world_def)
  have n: "heap ?d 0 = (node_init ''h'' ''pw'' 2333 2332)\<lparr>is_shutdown := True, queue := [DESTROY 5]\<rparr>"
    by (simp add: disconnect_eq mk_world_def node_init_def destroy_cmd_def)
  have rg: "registry ?d = []" by (simp add: disconnect_eq mk_world_def)
  have h: "\<not> ws_open (heap ?d 0)" "rest (heap ?d 0) = 2332" "port (heap ?d 0) = 2333"
    unfolding n by (simp_all add: node_init_def ws_open_def)
  note t = connect_resets_shutdown[of ?E None ?d 0 destroy_cmd]
  have q: "quiet ?E \<and> outcome ?E (host (heap ?w0 0), rest (heap ?w0 0)) 1 = Opened
        \<and> in_time None (took ?E (host (heap ?w0 0), rest (heap ?w0 0)) 1)"
    unfolding n0 by (simp add: net_quiet net_outcome node_init_def)
  from connect_resets_shutdown[of ?E None ?w0 0 destroy_cmd] q obtain r where
    r: "connect ?E None ?d 0 = Some r" "raised r = None"
       "ready (heap (last (observed r)) 0)" "ws_open (heap (last (observed r)) 0)" by blast
  from connect_resets_shutdown[of ?E None ?w0 0 destroy_cmd] r(1,2)
  have f: "flushed r = queue (heap ?w0 0) @ concat (map destroy_cmd (players (heap ?w0 0)))" by blast
  from connect_last_nonempty[OF r(1)] have m: "last (observed r) \<in> set (observed r)" by simp
  from t r(1) m have 1: "\<not> is_shutdown (heap (last (observed r)) 0)" by blast
  from connect_returned_nodes(7)[OF r(1,2)] rg have g: "registry (last (observed r)) = [(0, [])]"
    by simp
  have tr: "connect_tasks ?R (heap ?d 0) = [Some (1, 1, Returned None), Some (1, 1, Returned None)]"
    by (rule rej_tasks[OF h])
  then obtain r' where r': "connect ?R None ?d 0 = Some r'"
    by (simp add: connect_unfold as_completed_def)
  from connect_last_nonempty[OF r'] have m': "last (observed r') \<in> set (observed r')" by simp
  from connect_resets_shutdown[of ?R None ?d 0 destroy_cmd] r' m'
  have 2: "\<not> is_shutdown (heap (last (observed r')) 0)" by blast
  have 3: "is_shutdown (heap ?d 0)" unfolding n by simp
  have f': "flushed r = [DESTROY 5]" using f unfolding n0 by (simp add: node_init_def destroy_cmd_def)
  from 1 2 3 r r' g f' show ?thesis by (simp add: world_after_def node_at_def)
qed

end
